theory Spec2Isabelle
  imports Main "HOL-Library.Word" "HOL-Library.Sublist" "HOL-Library.List_Lexorder"
begin

unbundle bit_operations_syntax

section \<open>Data model\<close>

text \<open>
  The development follows \<^verbatim>\<open>Translations/make_translation.py\<close>.
  A Python \<^verbatim>\<open>bytes\<close> value is a list of 8-bit words, a one-character Python
  string (a symbol) is its Unicode code point, a Python string is the list of its code
  points, a Python \<^verbatim>\<open>int\<close> is an \<open>int\<close>, a \<^verbatim>\<open>dict\<close> is a map, and an exception
  is a value of \<open>py_error\<close> returned on the left of a sum. List positions that come
  from \<^verbatim>\<open>enumerate\<close> or \<^verbatim>\<open>range\<close> are natural numbers.
\<close>

type_synonym byte = "8 word"
type_synonym sym = nat
type_synonym pystr = "sym list"

datatype py_error =
    ValueError string
  | KeyError
  | IndexError
  | AssertionError
  | SystemExit int

text \<open>\<^verbatim>\<open>bytes([...])\<close> raises ValueError unless every item is in \<^verbatim>\<open>range(256)\<close>.\<close>

definition py_bytes :: "int list \<Rightarrow> py_error + byte list" where
  "py_bytes xs =
     (if list_all (\<lambda>x. 0 \<le> x \<and> x < 256) xs then Inr (map word_of_int xs)
      else Inl (ValueError ''bytes must be in range(0, 256)''))"

text \<open>\<^verbatim>\<open>xs[k]\<close> for an integer \<open>k\<close>: negative positions count from the end.\<close>

definition py_get :: "'a list \<Rightarrow> int \<Rightarrow> py_error + 'a" where
  "py_get xs k =
     (let n = int (length xs); j = (if k < 0 then n + k else k)
      in if 0 \<le> j \<and> j < n then Inr (xs ! nat j) else Inl IndexError)"

section \<open>Symbol index codec\<close>

text \<open>\<^verbatim>\<open>get_bytes_from_font_index\<close>, lines 240 to 288.\<close>

definition get_bytes_from_font_index :: "int \<Rightarrow> py_error + byte list" where
  "get_bytes_from_font_index index =
     (if index < 0 then Inl (ValueError ''index must be positive'')
      else
        let page = (index + 0x0E) div 0xFF in
        if page > 0x0F then Inl (ValueError ''page value out of range'')
        else if page = 0 then py_bytes [index]
        else
          let leader = page + 0xF0;
              val = ((index + 0x0E) mod 0xFF) + 0x01
          in if leader > 0xFF \<or> val > 0xFF then Inl (ValueError ''value is out of range'')
             else py_bytes [leader, val])"

text \<open>
  The repository has no decoder. This is the inverse reading of the mapping table in the
  comment of \<^verbatim>\<open>get_bytes_from_font_index\<close> (\<^verbatim>\<open>0xF1 0x01 => 1 * 0xFF - 15 + 1 = 241\<close>),
  used only to state that the encoding loses nothing.
\<close>

fun decode_font_bytes :: "byte list \<Rightarrow> int option" where
  "decode_font_bytes [b] = (if b \<le> 0xF0 then Some (uint b) else None)"
| "decode_font_bytes [l, v] =
     (if 0xF0 < l \<and> v \<noteq> 0 then Some ((uint l - 0xF0) * 0xFF - 15 + uint v) else None)"
| "decode_font_bytes bs = None"

section \<open>Glyph packing\<close>

text \<open>
  A \<^verbatim>\<open>bdflib\<close> glyph: its rows (\<^verbatim>\<open>glyph.data\<close>, bottom-most row first, the least
  significant bit the right-most pixel) and the four numbers returned by
  \<^verbatim>\<open>get_bounding_box()\<close>: left, bottom, width, height.
\<close>

record glyph =
  rows :: "int list"
  bbX :: int
  bbY :: int
  bbW :: int
  bbH :: int

text \<open>The local function \<^verbatim>\<open>get_cell\<close> of \<^verbatim>\<open>get_cjk_glyph\<close>, lines 207 to 222.\<close>

definition get_cell :: "glyph \<Rightarrow> int \<Rightarrow> int \<Rightarrow> py_error + bool" where
  "get_cell g x y =
     (let src_left = bbX g; src_bottom = bbY g; src_w = bbW g; src_h = bbH g;
          dst_h = 16;
          adj_x = x - src_left
      in if adj_x < 0 \<or> adj_x \<ge> src_w then Inr False
         else
           let adj_y = y - (dst_h - src_h - src_bottom - 3)
           in if adj_y < 0 \<or> adj_y \<ge> src_h then Inr False
              else (case py_get (rows g) (src_h - adj_y - 1) of
                      Inl e \<Rightarrow> Inl e
                    | Inr d \<Rightarrow> Inr (d AND push_bit (nat (src_w - adj_x - 1)) 1 \<noteq> 0)))"

text \<open>The loop over \<^verbatim>\<open>r in range(8)\<close>: one output byte, as an integer.\<close>

fun column_byte :: "glyph \<Rightarrow> int \<Rightarrow> int \<Rightarrow> nat list \<Rightarrow> int \<Rightarrow> py_error + int" where
  "column_byte g c block [] b = Inr b"
| "column_byte g c block (r # rs) b =
     (case get_cell g c (int r + 8 * block) of
        Inl e \<Rightarrow> Inl e
      | Inr lit \<Rightarrow> column_byte g c block rs (if lit then b OR push_bit r 0x01 else b))"

text \<open>\<^verbatim>\<open>bytearray.append\<close> raises ValueError outside \<^verbatim>\<open>range(256)\<close>.\<close>

definition bytearray_append :: "byte list \<Rightarrow> int \<Rightarrow> py_error + byte list" where
  "bytearray_append bs b =
     (if 0 \<le> b \<and> b < 256 then Inr (bs @ [word_of_int b])
      else Inl (ValueError ''byte must be in range(0, 256)''))"

text \<open>The loop over \<^verbatim>\<open>c in range(dst_w)\<close>.\<close>

fun block_columns :: "glyph \<Rightarrow> int \<Rightarrow> nat list \<Rightarrow> byte list \<Rightarrow> py_error + byte list" where
  "block_columns g block [] bs = Inr bs"
| "block_columns g block (c # cs) bs =
     (case column_byte g (int c) block [0..<8] 0 of
        Inl e \<Rightarrow> Inl e
      | Inr b \<Rightarrow>
          (case bytearray_append bs b of
             Inl e \<Rightarrow> Inl e
           | Inr bs' \<Rightarrow> block_columns g block cs bs'))"

text \<open>The loop over \<^verbatim>\<open>block in range(2)\<close>.\<close>

fun glyph_blocks :: "glyph \<Rightarrow> nat list \<Rightarrow> byte list \<Rightarrow> py_error + byte list" where
  "glyph_blocks g [] bs = Inr bs"
| "glyph_blocks g (block # blocks) bs =
     (case block_columns g (int block) [0..<12] bs of
        Inl e \<Rightarrow> Inl e
      | Inr bs' \<Rightarrow> glyph_blocks g blocks bs')"

text \<open>
  \<^verbatim>\<open>get_cjk_glyph\<close>, lines 196 to 237. The font loaded by \<^verbatim>\<open>cjk_font()\<close> is a
  parameter: a map from code points to glyphs, whose lookup raises KeyError.
\<close>

definition get_cjk_glyph :: "(nat \<rightharpoonup> glyph) \<Rightarrow> sym \<Rightarrow> py_error + byte list" where
  "get_cjk_glyph font s =
     (case font s of
        None \<Rightarrow> Inl KeyError
      | Some g \<Rightarrow> glyph_blocks g [0..<2] [])"

text \<open>
  Where the bounding box lands in the target cell: \<^verbatim>\<open>get_cell\<close> lights nothing left
  of \<open>bbX\<close>, right of \<open>bbX + bbW\<close>, above row \<open>16 - bbH - bbY - 3\<close> or \<open>bbH\<close> rows
  further down. \<open>box_covers g x y\<close> says that target pixel \<open>(x, y)\<close> is inside the box.
\<close>

definition box_covers :: "glyph \<Rightarrow> int \<Rightarrow> int \<Rightarrow> bool" where
  "box_covers g x y =
     (bbX g \<le> x \<and> x < bbX g + bbW g \<and>
      16 - bbH g - bbY g - 3 \<le> y \<and> y < 16 - bbH g - bbY g - 3 + bbH g)"

section \<open>Symbol allocation table\<close>

text \<open>
  The module \<^verbatim>\<open>font_tables\<close> is not part of the sources at hand. What
  \<^verbatim>\<open>make_translation.py\<close> uses of it is taken as a parameter: the two font names it
  compares with, and \<^verbatim>\<open>get_font_maps_for_name\<close>, which gives the 12x16 and the 6x8
  table of a font. The loaded CJK font is a parameter as well.
\<close>

record font_env =
  NAME_ASCII_BASIC :: string
  NAME_CJK :: string
  get_font_maps_for_name :: "string \<Rightarrow> (sym \<rightharpoonup> byte list) \<times> (sym \<rightharpoonup> byte list)"
  cjk_font :: "nat \<rightharpoonup> glyph"

record FontMap =
  font12 :: "sym \<rightharpoonup> byte list"
  font06 :: "sym \<rightharpoonup> byte list option"

record FontMapsPerFont =
  font12_maps :: "string \<rightharpoonup> (sym \<rightharpoonup> byte list)"
  font06_maps :: "string \<rightharpoonup> (sym \<rightharpoonup> byte list option)"
  sym_lists :: "string \<rightharpoonup> sym list"

text \<open>
  The loop \<^verbatim>\<open>for sym in text_list\<close> of \<^verbatim>\<open>get_font_map_per_font\<close>, lines 359 to 376,
  for one font. The state is the font's two maps, its symbol list and the set of symbols
  still pending. A CJK glyph that the font lacks raises KeyError out of the loop; a symbol
  that a table lacks is skipped.
\<close>

fun resolve_syms ::
  "font_env \<Rightarrow> bool \<Rightarrow> (sym \<rightharpoonup> byte list) \<Rightarrow> (sym \<rightharpoonup> byte list) \<Rightarrow> sym list \<Rightarrow>
   (sym \<rightharpoonup> byte list) \<times> (sym \<rightharpoonup> byte list option) \<times> sym list \<times> sym set \<Rightarrow>
   py_error + (sym \<rightharpoonup> byte list) \<times> (sym \<rightharpoonup> byte list option) \<times> sym list \<times> sym set" where
  "resolve_syms env is_cjk f12 f06 [] st = Inr st"
| "resolve_syms env is_cjk f12 f06 (s # rest) (font12_map, font06_map, sym_list, pending) =
     (if s \<notin> pending then
        resolve_syms env is_cjk f12 f06 rest (font12_map, font06_map, sym_list, pending)
      else if is_cjk then
        (case get_cjk_glyph (cjk_font env) s of
           Inl e \<Rightarrow> Inl e
         | Inr font12_line \<Rightarrow>
             resolve_syms env is_cjk f12 f06 rest
               (font12_map(s \<mapsto> font12_line), font06_map(s \<mapsto> None),
                sym_list @ [s], pending - {s}))
      else
        (case f12 s of
           None \<Rightarrow> resolve_syms env is_cjk f12 f06 rest (font12_map, font06_map, sym_list, pending)
         | Some font12_line \<Rightarrow>
             (case f06 s of
                None \<Rightarrow>
                  resolve_syms env is_cjk f12 f06 rest (font12_map, font06_map, sym_list, pending)
              | Some font06_line \<Rightarrow>
                  resolve_syms env is_cjk f12 f06 rest
                    (font12_map(s \<mapsto> font12_line), font06_map(s \<mapsto> Some font06_line),
                     sym_list @ [s], pending - {s}))))"

text \<open>
  The loop \<^verbatim>\<open>for font in fonts\<close>, lines 337 to 379. The three dictionaries are keyed
  by the font's name, so a name that occurs twice starts again from empty maps.
\<close>

fun font_loop ::
  "font_env \<Rightarrow> sym list \<Rightarrow> string list \<Rightarrow> FontMapsPerFont \<times> sym set \<Rightarrow>
   py_error + FontMapsPerFont \<times> sym set" where
  "font_loop env text_list [] st = Inr st"
| "font_loop env text_list (font # rest) (fm, pending) =
     (let fm0 = \<lparr>font12_maps = (font12_maps fm)(font \<mapsto> Map.empty),
                 font06_maps = (font06_maps fm)(font \<mapsto> Map.empty),
                 sym_lists = (sym_lists fm)(font \<mapsto> [])\<rparr>
      in if pending = {} then font_loop env text_list rest (fm0, pending)
         else
           let is_cjk = (font = NAME_CJK env);
               tables = (if is_cjk then (Map.empty, Map.empty)
                         else get_font_maps_for_name env font)
           in (case resolve_syms env is_cjk (fst tables) (snd tables) text_list
                       (Map.empty, Map.empty, [], pending) of
                 Inl e \<Rightarrow> Inl e
               | Inr (font12_map, font06_map, sym_list, pending') \<Rightarrow>
                   font_loop env text_list rest
                     (\<lparr>font12_maps = (font12_maps fm)(font \<mapsto> font12_map),
                       font06_maps = (font06_maps fm)(font \<mapsto> font06_map),
                       sym_lists = (sym_lists fm)(font \<mapsto> sym_list)\<rparr>, pending')))"

text \<open>\<^verbatim>\<open>get_font_map_per_font\<close>, lines 312 to 383.\<close>

definition get_font_map_per_font ::
  "font_env \<Rightarrow> sym list \<Rightarrow> string list \<Rightarrow> py_error + FontMapsPerFont" where
  "get_font_map_per_font env text_list fonts =
     (let pending_sym_set = set text_list
      in if card pending_sym_set \<noteq> length text_list then
           Inl (ValueError ''text_list contains duplicated symbols'')
         else
           (case fonts of
              [] \<Rightarrow> Inl IndexError
            | font0 # others \<Rightarrow>
                if font0 \<noteq> NAME_ASCII_BASIC env then
                  Inl (ValueError ''First item in fonts must be the basic ASCII font'')
                else
                  let total_symbol_count = length text_list
                  in if total_symbol_count > (0x10 * 0xFF - 15) - 2 then
                       Inl (ValueError ''Error, too many used symbols for this version'')
                     else
                       (case font_loop env text_list fonts
                               (\<lparr>font12_maps = Map.empty, font06_maps = Map.empty,
                                 sym_lists = Map.empty\<rparr>, pending_sym_set) of
                          Inl e \<Rightarrow> Inl e
                        | Inr (fm, pending) \<Rightarrow>
                            if pending \<noteq> {} then Inl KeyError else Inr fm)))"

text \<open>The digits \<^verbatim>\<open>"0"\<close> to \<^verbatim>\<open>"9"\<close>, as code points.\<close>

definition forced_first_symbols :: "sym list" where
  "forced_first_symbols = [48, 49, 50, 51, 52, 53, 54, 55, 56, 57]"


text \<open>Lines 396 to 398: the list handed to font resolution.\<close>

definition candidate_list :: "sym list \<Rightarrow> sym list" where
  "candidate_list text_list =
     forced_first_symbols @ filter (\<lambda>x. x \<notin> set forced_first_symbols) text_list"

text \<open>Lines 405 to 409: the per-font maps merged in the order of \<^verbatim>\<open>fonts\<close>.\<close>

fun merge_font_maps :: "FontMapsPerFont \<Rightarrow> string list \<Rightarrow> FontMap \<Rightarrow> py_error + FontMap" where
  "merge_font_maps fm [] acc = Inr acc"
| "merge_font_maps fm (font # rest) acc =
     (case font12_maps fm font of
        None \<Rightarrow> Inl KeyError
      | Some m12 \<Rightarrow>
          (case font06_maps fm font of
             None \<Rightarrow> Inl KeyError
           | Some m06 \<Rightarrow>
               merge_font_maps fm rest \<lparr>font12 = font12 acc ++ m12, font06 = font06 acc ++ m06\<rparr>))"

text \<open>Lines 414 to 420: symbols with both sizes and symbols with the large size only.\<close>

fun split_by_small ::
  "(sym \<rightharpoonup> byte list option) \<Rightarrow> sym list \<Rightarrow> sym list \<times> sym list \<Rightarrow>
   py_error + sym list \<times> sym list" where
  "split_by_small font06_map [] acc = Inr acc"
| "split_by_small font06_map (s # rest) (sym_list_both_fonts, sym_list_large_only) =
     (case font06_map s of
        None \<Rightarrow> Inl KeyError
      | Some None \<Rightarrow>
          split_by_small font06_map rest (sym_list_both_fonts, sym_list_large_only @ [s])
      | Some (Some small) \<Rightarrow>
          split_by_small font06_map rest (sym_list_both_fonts @ [s], sym_list_large_only))"

text \<open>Lines 424 to 426: byte codes in the order of the final list.\<close>

fun assign_symbol_bytes ::
  "(nat \<times> sym) list \<Rightarrow> (sym \<rightharpoonup> byte list) \<Rightarrow> py_error + (sym \<rightharpoonup> byte list)" where
  "assign_symbol_bytes [] symbol_map = Inr symbol_map"
| "assign_symbol_bytes ((index, s) # rest) symbol_map =
     (if symbol_map s \<noteq> None then Inl AssertionError
      else
        (case get_bytes_from_font_index (int index) of
           Inl e \<Rightarrow> Inl e
         | Inr code \<Rightarrow> assign_symbol_bytes rest (symbol_map(s \<mapsto> code))))"

text \<open>\<^verbatim>\<open>get_font_map_and_table\<close>, lines 386 to 428. Code point 10 is the newline.\<close>

definition get_font_map_and_table ::
  "font_env \<Rightarrow> sym list \<Rightarrow> string list \<Rightarrow>
   py_error + sym list \<times> FontMap \<times> (sym \<rightharpoonup> byte list)" where
  "get_font_map_and_table env text_list0 fonts =
     (let symbol_map = [10 \<mapsto> [0x01]];
          index = 2;
          text_list = candidate_list text_list0
      in case get_font_map_per_font env text_list fonts of
           Inl e \<Rightarrow> Inl e
         | Inr font_maps \<Rightarrow>
             (case merge_font_maps font_maps fonts \<lparr>font12 = Map.empty, font06 = Map.empty\<rparr> of
                Inl e \<Rightarrow> Inl e
              | Inr font_map \<Rightarrow>
                  (case split_by_small (font06 font_map) text_list ([], []) of
                     Inl e \<Rightarrow> Inl e
                   | Inr (sym_list_both_fonts, sym_list_large_only) \<Rightarrow>
                       let sym_list = sym_list_both_fonts @ sym_list_large_only
                       in (case assign_symbol_bytes (enumerate index sym_list) symbol_map of
                             Inl e \<Rightarrow> Inl e
                           | Inr symbol_map' \<Rightarrow> Inr (sym_list, font_map, symbol_map')))))"

section \<open>String table\<close>

text \<open>
  \<^verbatim>\<open>str.replace\<close> for a pattern of two characters: occurrences are replaced from the
  left and do not overlap.
\<close>

fun py_replace2 :: "sym \<Rightarrow> sym \<Rightarrow> pystr \<Rightarrow> pystr \<Rightarrow> pystr" where
  "py_replace2 a b new (x # y # rest) =
     (if x = a \<and> y = b then new @ py_replace2 a b new rest
      else x # py_replace2 a b new (y # rest))"
| "py_replace2 a b new xs = xs"

text \<open>The loop of \<^verbatim>\<open>convert_string_bytes\<close>; a symbol without a code ends the program.\<close>

fun encode_symbols :: "(sym \<rightharpoonup> byte list) \<Rightarrow> pystr \<Rightarrow> byte list \<Rightarrow> py_error + byte list" where
  "encode_symbols table [] output_string = Inr output_string"
| "encode_symbols table (c # cs) output_string =
     (case table c of
        None \<Rightarrow> Inl (SystemExit 1)
      | Some code \<Rightarrow> encode_symbols table cs (output_string @ code))"

text \<open>
  \<^verbatim>\<open>convert_string_bytes\<close>, lines 464 to 473: a backslash (92) followed by \<open>r\<close> (114)
  is dropped, a backslash followed by \<open>n\<close> (110) becomes a newline (10).
\<close>

definition convert_string_bytes :: "(sym \<rightharpoonup> byte list) \<Rightarrow> pystr \<Rightarrow> py_error + byte list" where
  "convert_string_bytes table text =
     encode_symbols table (py_replace2 92 110 [10] (py_replace2 92 114 [] text)) []"

record RemappedTranslationItem =
  str_index :: nat
  str_start_offset :: int

type_synonym table_entry = "nat \<times> pystr \<times> byte list"

text \<open>The generator of lines 772 to 775: each string with its position and its reversed code.\<close>

fun backward_entries ::
  "(sym \<rightharpoonup> byte list) \<Rightarrow> (nat \<times> pystr) list \<Rightarrow> py_error + table_entry list" where
  "backward_entries table [] = Inr []"
| "backward_entries table ((i, s) # rest) =
     (case convert_string_bytes table s of
        Inl e \<Rightarrow> Inl e
      | Inr converted \<Rightarrow>
          (case backward_entries table rest of
             Inl e \<Rightarrow> Inl e
           | Inr es \<Rightarrow> Inr ((i, s, rev converted) # es)))"

text \<open>
  Lines 771 to 777. \<^verbatim>\<open>sorted\<close> is stable and compares the keys, which are
  \<^verbatim>\<open>bytes\<close>, in lexicographic order of unsigned bytes; so does \<open>sort_key\<close> on lists
  of words.
\<close>

definition backward_sorted_table ::
  "(sym \<rightharpoonup> byte list) \<Rightarrow> pystr list \<Rightarrow> py_error + table_entry list" where
  "backward_sorted_table table str_table =
     (case backward_entries table (enumerate 0 str_table) of
        Inl e \<Rightarrow> Inl e
      | Inr es \<Rightarrow> Inr (sort_key (\<lambda>x. snd (snd x)) es))"

text \<open>
  The \<^verbatim>\<open>while\<close> loop of lines 781 and 782. Reading \<^verbatim>\<open>backward_sorted_table[j + 1]\<close>
  past the last entry raises IndexError.
\<close>

function scan_suffix_run :: "table_entry list \<Rightarrow> byte list \<Rightarrow> nat \<Rightarrow> py_error + nat" where
  "scan_suffix_run tbl converted j =
     (if j + 1 < length tbl then
        (if prefix converted (snd (snd (tbl ! (j + 1)))) then scan_suffix_run tbl converted (j + 1)
         else Inr j)
      else Inl IndexError)"
  by pat_completeness auto
termination
  by (relation "measure (\<lambda>(tbl, converted, j). length tbl - j)") auto

text \<open>
  The \<^verbatim>\<open>for\<close> loop of lines 779 to 787 over \<^verbatim>\<open>enumerate(backward_sorted_table[:-1])\<close>.
  \<^verbatim>\<open>str_index\<close> is a position of \<^verbatim>\<open>str_table\<close>, and \<^verbatim>\<open>str_remapping\<close> is as long.
\<close>

fun remap_loop ::
  "table_entry list \<Rightarrow> (nat \<times> table_entry) list \<Rightarrow> RemappedTranslationItem option list \<Rightarrow>
   py_error + RemappedTranslationItem option list" where
  "remap_loop tbl [] str_remapping = Inr str_remapping"
| "remap_loop tbl ((i, (str_idx, source_str, converted)) # rest) str_remapping =
     (case scan_suffix_run tbl converted i of
        Inl e \<Rightarrow> Inl e
      | Inr j \<Rightarrow>
          remap_loop tbl rest
            (if j \<noteq> i then
               str_remapping[str_idx := Some
                 \<lparr>str_index = fst (tbl ! j),
                  str_start_offset = int (length (snd (snd (tbl ! j)))) - int (length converted)\<rparr>]
             else str_remapping))"

text \<open>Lines 771 to 787: the suffix merging, from the string table to \<^verbatim>\<open>str_remapping\<close>.\<close>

definition suffix_merge ::
  "(sym \<rightharpoonup> byte list) \<Rightarrow> pystr list \<Rightarrow> py_error + RemappedTranslationItem option list" where
  "suffix_merge table str_table =
     (case backward_sorted_table table str_table of
        Inl e \<Rightarrow> Inl e
      | Inr tbl \<Rightarrow>
          remap_loop tbl (enumerate 0 (butlast tbl)) (replicate (length str_table) None))"

text \<open>
  The state of the writing loop. The source writes C text; \<open>strings_data\<close> holds the
  bytes that the string literals written so far stand for, each \<^verbatim>\<open>\x..\<close> escape one
  byte and each \<^verbatim>\<open>"\0"\<close> one zero byte.
\<close>

record write_state =
  str_offsets :: "int list"
  offset :: int
  write_null :: bool
  strings_data :: "byte list"

text \<open>The loop \<^verbatim>\<open>for j in str_used_by\<close>, lines 804 to 826, without the comments it writes.\<close>

fun record_offsets ::
  "RemappedTranslationItem option list \<Rightarrow> nat \<Rightarrow> int \<Rightarrow> nat list \<Rightarrow> int list \<Rightarrow>
   py_error + int list" where
  "record_offsets str_remapping i off [] offs = Inr offs"
| "record_offsets str_remapping i off (j # js) offs =
     (if j = i then record_offsets str_remapping i off js (offs[j := off])
      else
        (case str_remapping ! j of
           None \<Rightarrow> Inl AssertionError
         | Some remapped \<Rightarrow>
             record_offsets str_remapping i off js (offs[j := off + str_start_offset remapped])))"

text \<open>Lines 801 to 803: the string itself, then the strings remapped onto it.\<close>

definition str_used_by :: "RemappedTranslationItem option list \<Rightarrow> nat \<Rightarrow> nat list" where
  "str_used_by str_remapping i =
     i # map fst (filter (\<lambda>(j, r). case r of None \<Rightarrow> False | Some r' \<Rightarrow> str_index r' = i)
                    (enumerate 0 str_remapping))"

text \<open>The loop \<^verbatim>\<open>for i, source_str in enumerate(str_table)\<close>, lines 794 to 831.\<close>

fun write_strings ::
  "(sym \<rightharpoonup> byte list) \<Rightarrow> RemappedTranslationItem option list \<Rightarrow> (nat \<times> pystr) list \<Rightarrow>
   write_state \<Rightarrow> py_error + write_state" where
  "write_strings table str_remapping [] st = Inr st"
| "write_strings table str_remapping ((i, source_str) # rest) st =
     (if str_remapping ! i \<noteq> None then write_strings table str_remapping rest st
      else
        let data1 = (if write_null st then strings_data st @ [0] else strings_data st)
        in (case record_offsets str_remapping i (offset st) (str_used_by str_remapping i)
                   (str_offsets st) of
              Inl e \<Rightarrow> Inl e
            | Inr offs \<Rightarrow>
                (case convert_string_bytes table source_str of
                   Inl e \<Rightarrow> Inl e
                 | Inr converted_bytes \<Rightarrow>
                     write_strings table str_remapping rest
                       \<lparr>str_offsets = offs[i := offset st],
                        offset = offset st + int (length converted_bytes) + 1,
                        write_null = True,
                        strings_data = data1 @ converted_bytes\<rparr>)))"

text \<open>
  The contents of the array \<^verbatim>\<open>TranslationStringsData\<close>: adjacent string literals are
  one literal, and a literal that initialises a \<^verbatim>\<open>char\<close> array brings its terminating
  zero byte. With no literal written the array is empty.
\<close>

definition array_contents :: "write_state \<Rightarrow> byte list" where
  "array_contents st = (if write_null st then strings_data st @ [0] else strings_data st)"

text \<open>
  Lines 764 to 832 of \<^verbatim>\<open>get_translation_strings_and_indices_text\<close>, from the string
  table to the array contents and \<^verbatim>\<open>str_offsets\<close>.
\<close>

definition translation_strings ::
  "(sym \<rightharpoonup> byte list) \<Rightarrow> pystr list \<Rightarrow> py_error + byte list \<times> int list" where
  "translation_strings table str_table =
     (case suffix_merge table str_table of
        Inl e \<Rightarrow> Inl e
      | Inr str_remapping \<Rightarrow>
          (case write_strings table str_remapping (enumerate 0 str_table)
                  \<lparr>str_offsets = replicate (length str_table) (- 1), offset = 0,
                   write_null = False, strings_data = []\<rparr> of
             Inl e \<Rightarrow> Inl e
           | Inr st \<Rightarrow> Inr (array_contents st, str_offsets st)))"

text \<open>The local function \<^verbatim>\<open>get_offset\<close>, lines 834 to 836.\<close>

definition get_offset :: "int list \<Rightarrow> int \<Rightarrow> py_error + int" where
  "get_offset offs idx =
     (case py_get offs idx of
        Inl e \<Rightarrow> Inl e
      | Inr v \<Rightarrow> if v \<ge> 0 then Inr v else Inl AssertionError)"

text \<open>
  What the firmware reads at an offset: the bytes from there up to the next zero byte.
\<close>

definition read_string :: "byte list \<Rightarrow> nat \<Rightarrow> byte list" where
  "read_string blob off = takeWhile (\<lambda>b. b \<noteq> 0) (drop off blob)"

section \<open>Inputs of the scenarios\<close>

text \<open>Every symbol below 128 encodes as the byte of its own code point.\<close>

definition ascii_table :: "sym \<rightharpoonup> byte list" where
  "ascii_table c = (if c < 128 then Some [word_of_nat c] else None)"

text \<open>The strings \<^verbatim>\<open>"ab"\<close>, \<^verbatim>\<open>"cdab"\<close> and \<^verbatim>\<open>"xyz"\<close>.\<close>

definition str_ab :: pystr where "str_ab = [97, 98]"
definition str_cdab :: pystr where "str_cdab = [99, 100, 97, 98]"
definition str_xyz :: pystr where "str_xyz = [120, 121, 122]"

text \<open>
  The strings \<^verbatim>\<open>"ef"\<close>, \<^verbatim>\<open>"cdef"\<close> and \<^verbatim>\<open>"abcdef"\<close> of the comment at
  lines 766 to 770.
\<close>

definition str_ef :: pystr where "str_ef = [101, 102]"
definition str_cdef :: pystr where "str_cdef = [99, 100, 101, 102]"
definition str_abcdef :: pystr where "str_abcdef = [97, 98, 99, 100, 101, 102]"

text \<open>A glyph of one lit pixel whose box starts at column 12, right of the cell.\<close>

definition glyph_right_of_cell :: glyph where
  "glyph_right_of_cell = \<lparr>rows = [1], bbX = 12, bbY = 0, bbW = 1, bbH = 1\<rparr>"

text \<open>
  Two font environments. In both, the basic ASCII font is named \<^verbatim>\<open>ascii_basic\<close> and
  the CJK font \<^verbatim>\<open>cjk\<close>, every bitmap is blank, and the CJK font has a glyph for
  U+4E2D and for the digit zero. In \<open>env_ascii\<close> the tables of every named font
  cover the code points below 128. In \<open>env_no_zero\<close> they cover the digits one to
  nine and the letter \<^verbatim>\<open>a\<close> only, so the digit zero is left to the CJK font.
\<close>

definition blank_glyph :: glyph where
  "blank_glyph = \<lparr>rows = [], bbX = 0, bbY = 0, bbW = 0, bbH = 0\<rparr>"

definition env_ascii :: font_env where
  "env_ascii =
     \<lparr>NAME_ASCII_BASIC = ''ascii_basic'', NAME_CJK = ''cjk'',
      get_font_maps_for_name =
        (\<lambda>name. ((\<lambda>s. if s < 128 then Some (replicate 24 0) else None),
                 (\<lambda>s. if s < 128 then Some (replicate 6 0) else None))),
      cjk_font = [20013 \<mapsto> blank_glyph, 48 \<mapsto> blank_glyph]\<rparr>"

definition env_no_zero :: font_env where
  "env_no_zero =
     \<lparr>NAME_ASCII_BASIC = ''ascii_basic'', NAME_CJK = ''cjk'',
      get_font_maps_for_name =
        (\<lambda>name. ((\<lambda>s. if 48 < s \<and> s < 58 \<or> s = 97 then Some (replicate 24 0) else None),
                 (\<lambda>s. if 48 < s \<and> s < 58 \<or> s = 97 then Some (replicate 6 0) else None))),
      cjk_font = [20013 \<mapsto> blank_glyph, 48 \<mapsto> blank_glyph]\<rparr>"

text \<open>A single font whose tables cover every symbol.\<close>

definition env_cover_all :: font_env where
  "env_cover_all =
     \<lparr>NAME_ASCII_BASIC = ''ascii_basic'', NAME_CJK = ''cjk'',
      get_font_maps_for_name =
        (\<lambda>name. ((\<lambda>s. Some (replicate 24 0)), (\<lambda>s. Some (replicate 6 0)))),
      cjk_font = Map.empty\<rparr>"

text \<open>A required-symbol list of 4065 different symbols, none of them a digit.\<close>

definition symbols_4065 :: "sym list" where
  "symbols_4065 = [1000..<5065]"

section \<open>Notions used in the proofs about the string table\<close>

text \<open>
  The string whose bytes a string is read from: itself, or the one it was remapped onto;
  and where in those bytes it starts.
\<close>

definition representative :: "RemappedTranslationItem option list \<Rightarrow> nat \<Rightarrow> nat" where
  "representative rm a = (case rm ! a of None \<Rightarrow> a | Some r \<Rightarrow> str_index r)"

definition start_in_representative :: "RemappedTranslationItem option list \<Rightarrow> nat \<Rightarrow> int" where
  "start_in_representative rm a = (case rm ! a of None \<Rightarrow> 0 | Some r \<Rightarrow> str_start_offset r)"

text \<open>
  What the scan has established for every remapped string \<open>a\<close>: it sits at a position
  \<open>p\<close> of the sorted table, the scan ran from \<open>p\<close> to a later position \<open>j\<close> and
  stopped there, and the item records the string at \<open>j\<close> and the difference in length.
\<close>

definition remap_inv :: "table_entry list \<Rightarrow> RemappedTranslationItem option list \<Rightarrow> bool" where
  "remap_inv tbl rm \<longleftrightarrow>
     (\<forall>a r. a < length rm \<and> rm ! a = Some r \<longrightarrow>
        (\<exists>p j. p < j \<and> j + 1 < length tbl \<and> fst (tbl ! p) = a \<and>
               str_index r = fst (tbl ! j) \<and>
               str_start_offset r =
                 int (length (snd (snd (tbl ! j)))) - int (length (snd (snd (tbl ! p)))) \<and>
               prefix (snd (snd (tbl ! p))) (snd (snd (tbl ! (p + 1)))) \<and>
               prefix (snd (snd (tbl ! p))) (snd (snd (tbl ! j))) \<and>
               \<not> prefix (snd (snd (tbl ! p))) (snd (snd (tbl ! (j + 1))))))"

text \<open>
  A remapping is sound for the codes \<open>enc\<close> of the strings when every remapped string
  points at a string that is not remapped itself and whose code ends with its own code,
  from the recorded offset on.
\<close>

definition remap_sound :: "(nat \<Rightarrow> byte list) \<Rightarrow> RemappedTranslationItem option list \<Rightarrow> bool" where
  "remap_sound enc rm \<longleftrightarrow>
     (\<forall>a r. a < length rm \<and> rm ! a = Some r \<longrightarrow>
        str_index r < length rm \<and> rm ! str_index r = None \<and>
        0 \<le> str_start_offset r \<and>
        nat (str_start_offset r) \<le> length (enc (str_index r)) \<and>
        drop (nat (str_start_offset r)) (enc (str_index r)) = enc a)"

text \<open>
  The state of the writing loop before position \<open>k\<close>: the running offset is the length
  of the array so far, and every string whose representative has been written has its
  offset, at which the array holds its code and a zero byte.
\<close>

definition written_ok ::
  "(nat \<Rightarrow> byte list) \<Rightarrow> RemappedTranslationItem option list \<Rightarrow> nat \<Rightarrow> write_state \<Rightarrow> bool" where
  "written_ok enc rm k st \<longleftrightarrow>
     length (str_offsets st) = length rm \<and>
     offset st = int (length (array_contents st)) \<and>
     (\<forall>a. a < length rm \<and> representative rm a < k \<longrightarrow>
        0 \<le> str_offsets st ! a \<and>
        str_offsets st ! a =
          str_offsets st ! representative rm a + start_in_representative rm a \<and>
        (\<exists>rest. drop (nat (str_offsets st ! a)) (array_contents st) = enc a @ 0 # rest))"

section \<open>Properties of the codec\<close>

lemma uint_byte_of_int: "0 \<le> x \<Longrightarrow> x < 256 \<Longrightarrow> uint (word_of_int x :: byte) = x"
  by (simp add: uint_word_of_int take_bit_int_eq_self)

lemma page_zero_iff: "0 \<le> i \<Longrightarrow> (i + 14) div 255 = 0 \<longleftrightarrow> i \<le> (240::int)"
  by (auto simp: zdiv_eq_0_iff)

lemma byte_le_iff: "0 \<le> x \<Longrightarrow> x < 256 \<Longrightarrow> (word_of_int x :: byte) \<le> 0xF0 \<longleftrightarrow> x \<le> 240"
  by (simp add: word_le_def uint_byte_of_int)

lemma byte_less_iff: "0 \<le> x \<Longrightarrow> x < 256 \<Longrightarrow> (0xF0 :: byte) < word_of_int x \<longleftrightarrow> 240 < x"
  by (simp add: word_less_def uint_byte_of_int)

lemma byte_zero_iff: "0 \<le> x \<Longrightarrow> x < 256 \<Longrightarrow> (word_of_int x :: byte) = 0 \<longleftrightarrow> x = 0"
  by (metis uint_byte_of_int uint_0_eq word_of_int_0)

text \<open>The two shapes of a successful encoding.\<close>

lemma encode_cases:
  assumes "get_bytes_from_font_index i = Inr bs"
  shows "(0 \<le> i \<and> i \<le> 240 \<and> bs = [word_of_int i]) \<or>
         (241 \<le> i \<and> i \<le> 4065 \<and>
          bs = [word_of_int ((i + 14) div 255 + 240), word_of_int ((i + 14) mod 255 + 1)])"
proof -
  from assms have nn: "0 \<le> i"
    by (auto simp: get_bytes_from_font_index_def split: if_splits)
  show ?thesis
  proof (cases "i \<le> 240")
    case True
    with nn assms show ?thesis
      by (auto simp: get_bytes_from_font_index_def Let_def py_bytes_def page_zero_iff split: if_splits)
  next
    case False
    then have pz: "(i + 14) div 255 \<noteq> 0" using nn page_zero_iff by simp
    have "i \<le> 4065" using assms nn
      by (auto simp: get_bytes_from_font_index_def Let_def split: if_splits)
    with False nn pz assms show ?thesis
      by (auto simp: get_bytes_from_font_index_def Let_def py_bytes_def split: if_splits)
  qed
qed

lemma encode_small:
  "0 \<le> i \<Longrightarrow> i \<le> 240 \<Longrightarrow> get_bytes_from_font_index i = Inr [word_of_int i]"
  by (simp add: get_bytes_from_font_index_def Let_def py_bytes_def page_zero_iff)

lemma encode_large:
  assumes "241 \<le> i" "i \<le> 4065"
  shows "get_bytes_from_font_index i =
           Inr [word_of_int ((i + 14) div 255 + 240), word_of_int ((i + 14) mod 255 + 1)]"
proof -
  have a: "(i + 14) div 255 \<noteq> 0" using assms page_zero_iff [of i] by simp
  have b: "(i + 14) div 255 \<le> 15" using assms by simp
  have c: "0 \<le> (i + 14) div 255" using assms by simp
  have d: "(i + 14) mod 255 < 255" "0 \<le> (i + 14) mod 255" by simp_all
  show ?thesis using assms a b c d
    by (simp add: get_bytes_from_font_index_def Let_def py_bytes_def)
qed

lemma encode_succeeds:
  "0 \<le> i \<Longrightarrow> i \<le> 4065 \<Longrightarrow> \<exists>bs. get_bytes_from_font_index i = Inr bs"
  using encode_small [of i] encode_large [of i] by (cases "i \<le> 240") auto

lemma decode_two:
  assumes "241 \<le> L" "L \<le> 255" "1 \<le> V" "V \<le> 255"
  shows "decode_font_bytes [word_of_int L, word_of_int V] = Some ((L - 240) * 255 - 15 + V)"
  using assms by (simp add: byte_less_iff byte_zero_iff uint_byte_of_int)

lemma decode_encode:
  assumes "0 \<le> i" "i \<le> 4065"
  shows "\<exists>bs. get_bytes_from_font_index i = Inr bs \<and> decode_font_bytes bs = Some i"
proof (cases "i \<le> 240")
  case True
  then show ?thesis using assms
    by (simp add: encode_small byte_le_iff uint_byte_of_int)
next
  case False
  then have r: "241 \<le> i" by simp
  define L where "L = (i + 14) div 255 + 240"
  define V where "V = (i + 14) mod 255 + 1"
  have p: "241 \<le> L" "L \<le> 255" using r assms by (simp_all add: L_def)
  have m: "1 \<le> V" "V \<le> 255" by (simp_all add: V_def)
  have eq: "(L - 240) * 255 - 15 + V = i" by (simp add: L_def V_def)
  have "get_bytes_from_font_index i = Inr [word_of_int L, word_of_int V]"
    unfolding L_def V_def by (rule encode_large [OF r assms(2)])
  then show ?thesis using decode_two [OF p m] eq by simp
qed

lemma two_bytes_shape:
  assumes "get_bytes_from_font_index i = Inr [l, v]"
  shows "0xF1 \<le> l \<and> l \<le> 0xFF \<and> v \<noteq> 0"
proof -
  define L where "L = (i + 14) div 255 + 240"
  define V where "V = (i + 14) mod 255 + 1"
  from encode_cases [OF assms] have r: "241 \<le> i" "i \<le> 4065"
    and l: "l = word_of_int L" and v: "v = word_of_int V"
    unfolding L_def V_def by auto
  have p: "241 \<le> L" "L \<le> 255" using r by (simp_all add: L_def)
  have m: "1 \<le> V" "V \<le> 255" by (simp_all add: V_def)
  have "uint l = L" using p l by (simp add: uint_byte_of_int)
  then have "0xF1 \<le> l" "l \<le> 0xFF" using p by (simp_all add: word_le_def)
  moreover have "v \<noteq> 0" using v m byte_zero_iff [of V] by simp
  ultimately show ?thesis by simp
qed

text \<open>No byte of a code is zero once the index is positive.\<close>

lemma encode_no_zero:
  assumes "get_bytes_from_font_index i = Inr bs" "1 \<le> i"
  shows "0 \<notin> set bs"
proof -
  from encode_cases [OF assms(1)] show ?thesis
  proof
    assume a: "0 \<le> i \<and> i \<le> 240 \<and> bs = [word_of_int i]"
    then show ?thesis using assms(2) byte_zero_iff [of i] by auto
  next
    assume a: "241 \<le> i \<and> i \<le> 4065 \<and>
          bs = [word_of_int ((i + 14) div 255 + 240), word_of_int ((i + 14) mod 255 + 1)]"
    then have "get_bytes_from_font_index i =
        Inr [word_of_int ((i + 14) div 255 + 240), word_of_int ((i + 14) mod 255 + 1)]"
      using assms(1) by simp
    from two_bytes_shape [OF this] a show ?thesis by auto
  qed
qed

text \<open>
  Claim C3. For a non-negative ordinal the codec computes \<open>page = (o + 14) div 255\<close>,
  fails when \<open>page > 15\<close>, returns the single byte \<open>o\<close> when \<open>page = 0\<close>, and otherwise
  returns the leader \<open>0xF0 + page\<close> followed by \<open>(o + 14) mod 255 + 1\<close>, failing when
  either of the two exceeds a byte.
\<close>

theorem encode_algorithm:
  assumes "0 \<le> ordinal"
  shows "get_bytes_from_font_index ordinal =
     (let page = (ordinal + 14) div 255;
          leader = 0xF0 + page;
          val = (ordinal + 14) mod 255 + 1
      in if page > 15 then Inl (ValueError ''page value out of range'')
         else if page = 0 then Inr [word_of_int ordinal]
         else if leader > 255 \<or> val > 255 then Inl (ValueError ''value is out of range'')
         else Inr [word_of_int leader, word_of_int val])"
proof -
  have "ordinal \<le> 240" if "(ordinal + 14) div 255 = 0"
    using that assms page_zero_iff by simp
  moreover have "0 \<le> (ordinal + 14) div 255"
    using assms by simp
  moreover have "0 \<le> (ordinal + 14) mod 255"
    by simp
  ultimately show ?thesis
    using assms
    by (auto simp: get_bytes_from_font_index_def Let_def py_bytes_def add.commute)
qed

theorem encode_algorithm_witness:
  "(0::int) \<le> 241 \<and> get_bytes_from_font_index 241 = Inr [0xF1, 0x01]"
  using encode_algorithm [of 241] by simp

text \<open>
  Claim C4, as the code has it. The codec adds nothing to the index: index 0 encodes as
  the byte \<open>0x00\<close>, and it is the table builder that starts at index 2, which encodes as
  the single byte \<open>0x02\<close>. Every two-byte code has its leader in \<open>0xF1..0xFF\<close> and a
  value byte other than \<open>0x00\<close>.
\<close>

theorem encode_first_and_no_zero_value:
  "get_bytes_from_font_index 2 = Inr [0x02] \<and>
   (\<forall>i l v. get_bytes_from_font_index i = Inr [l, v] \<longrightarrow> 0xF1 \<le> l \<and> l \<le> 0xFF \<and> v \<noteq> 0)"
proof -
  have "get_bytes_from_font_index 2 = Inr [0x02]"
    by (simp add: get_bytes_from_font_index_def py_bytes_def)
  then show ?thesis using two_bytes_shape by blast
qed

theorem encode_first_and_no_zero_value_witness:
  "get_bytes_from_font_index 495 = Inr [0xF1, 0xFF] \<and> (0xF1 :: byte) \<le> 0xF1 \<and> (0xFF :: byte) \<noteq> 0"
proof -
  have h: "get_bytes_from_font_index 495 = Inr [0xF1, 0xFF]"
    by (simp add: get_bytes_from_font_index_def py_bytes_def)
  from encode_first_and_no_zero_value h
  have "(0xF1 :: byte) \<le> 0xF1 \<and> (0xF1 :: byte) \<le> 0xFF \<and> (0xFF :: byte) \<noteq> 0" by blast
  with h show ?thesis by simp
qed

text \<open>Claim C4 as stated fails: index 0 encodes as the byte \<open>0x00\<close>, not \<open>0x02\<close>.\<close>

theorem encode_zero_counterexample:
  "get_bytes_from_font_index 0 = Inr [0x00] \<and> get_bytes_from_font_index 0 \<noteq> Inr [0x02]"
  by (simp add: get_bytes_from_font_index_def py_bytes_def)

text \<open>
  Claim C5. On the indices the codec accepts, \<open>0 \<le> o < 4066\<close>, the encoding is
  injective and \<open>decode_font_bytes\<close> inverts it; 4066 is the first index refused.
\<close>

theorem codec_bijection:
  "inj_on get_bytes_from_font_index {0..<4066} \<and>
   (\<forall>ordinal\<in>{0..<4066}. \<exists>bs. get_bytes_from_font_index ordinal = Inr bs \<and>
        decode_font_bytes bs = Some ordinal) \<and>
   get_bytes_from_font_index 4066 = Inl (ValueError ''page value out of range'')"
proof (intro conjI)
  show "inj_on get_bytes_from_font_index {0..<4066}"
  proof (rule inj_onI)
    fix a b :: int
    assume a: "a \<in> {0..<4066}" and b: "b \<in> {0..<4066}"
      and eq: "get_bytes_from_font_index a = get_bytes_from_font_index b"
    from a obtain bs where 1: "get_bytes_from_font_index a = Inr bs" "decode_font_bytes bs = Some a"
      using decode_encode [of a] by auto
    from b obtain cs where 2: "get_bytes_from_font_index b = Inr cs" "decode_font_bytes cs = Some b"
      using decode_encode [of b] by auto
    from 1 2 eq show "a = b" by simp
  qed
  show "\<forall>ordinal\<in>{0..<4066}. \<exists>bs. get_bytes_from_font_index ordinal = Inr bs \<and>
        decode_font_bytes bs = Some ordinal"
    using decode_encode by simp
  show "get_bytes_from_font_index 4066 = Inl (ValueError ''page value out of range'')"
    by (simp add: get_bytes_from_font_index_def)
qed

theorem codec_bijection_witness:
  "(4065::int) \<in> {0..<4066} \<and> get_bytes_from_font_index 4065 = Inr [0xFF, 0xFF] \<and>
   decode_font_bytes [0xFF, 0xFF] = Some 4065"
proof -
  have m: "(4065::int) \<in> {0..<4066}" by simp
  have h: "get_bytes_from_font_index 4065 = Inr [0xFF, 0xFF]"
    by (simp add: get_bytes_from_font_index_def py_bytes_def)
  from codec_bijection m
  have "\<exists>bs. get_bytes_from_font_index 4065 = Inr bs \<and> decode_font_bytes bs = Some 4065"
    by blast
  with h m show ?thesis by simp
qed

section \<open>Properties of the glyph packing\<close>

lemma get_cell_uncovered: "\<not> box_covers g x y \<Longrightarrow> get_cell g x y = Inr False"
  by (auto simp: get_cell_def box_covers_def Let_def)

lemma column_byte_unlit:
  assumes "\<And>r. r \<in> set rs \<Longrightarrow> get_cell g c (int r + 8 * block) = Inr False"
  shows "column_byte g c block rs b = Inr b"
  using assms by (induction rs arbitrary: b) simp_all

lemma block_columns_unlit:
  assumes "\<And>c. c \<in> set cs \<Longrightarrow> column_byte g (int c) block [0..<8] 0 = Inr 0"
  shows "block_columns g block cs bs = Inr (bs @ replicate (length cs) 0)"
  using assms
proof (induction cs arbitrary: bs)
  case Nil
  then show ?case by simp
next
  case (Cons c cs)
  have "column_byte g (int c) block [0..<8] 0 = Inr 0" using Cons.prems by simp
  moreover have "block_columns g block cs (bs @ [0]) = Inr ((bs @ [0]) @ replicate (length cs) 0)"
    using Cons.IH Cons.prems by simp
  ultimately show ?case by (simp add: bytearray_append_def replicate_app_Cons_same)
qed

lemma blank_block:
  assumes out: "\<And>x y. 0 \<le> x \<Longrightarrow> x < 12 \<Longrightarrow> 0 \<le> y \<Longrightarrow> y < 16 \<Longrightarrow> \<not> box_covers g x y"
    and block: "block = 0 \<or> block = 1"
  shows "block_columns g block [0..<12] bs = Inr (bs @ replicate 12 0)"
proof -
  have "column_byte g (int c) block [0..<8] 0 = Inr 0" if "c \<in> set [0..<12]" for c
  proof (rule column_byte_unlit)
    fix r assume "r \<in> set [0..<8]"
    then have "0 \<le> int r + 8 * block" "int r + 8 * block < 16" using block by auto
    moreover have "0 \<le> int c" "int c < 12" using that by auto
    ultimately show "get_cell g (int c) (int r + 8 * block) = Inr False"
      using out get_cell_uncovered by blast
  qed
  from block_columns_unlit [of "[0..<12]" g block bs, OF this] show ?thesis by simp
qed

text \<open>
  Claim C9. When no pixel of the 12x16 target cell lies inside the glyph's bounding box,
  placed as \<^verbatim>\<open>get_cell\<close> places it, the packed glyph is 24 zero bytes.
\<close>

theorem glyph_outside_cell_is_blank:
  assumes "font s = Some g"
    and "\<forall>x y. 0 \<le> x \<and> x < 12 \<and> 0 \<le> y \<and> y < 16 \<longrightarrow> \<not> box_covers g x y"
  shows "get_cjk_glyph font s = Inr (replicate 24 0)"
proof -
  have out: "\<And>x y. 0 \<le> x \<Longrightarrow> x < 12 \<Longrightarrow> 0 \<le> y \<Longrightarrow> y < 16 \<Longrightarrow> \<not> box_covers g x y"
    using assms(2) by blast
  have two: "[0..<2] = [0, 1]" by (simp add: upt_rec)
  have b0: "block_columns g 0 [0..<12] [] = Inr (replicate 12 0)"
    using blank_block [of g 0 "[]", OF out] by simp
  have b1: "block_columns g 1 [0..<12] (replicate 12 0) = Inr (replicate 12 0 @ replicate 12 0)"
    using blank_block [of g 1 "replicate 12 0", OF out] by simp
  have "replicate 12 (0::byte) @ replicate 12 0 = replicate 24 0"
    by (simp add: replicate_add [symmetric])
  with b0 b1 show ?thesis
    using assms(1) by (simp add: get_cjk_glyph_def two)
qed

theorem glyph_outside_cell_is_blank_witness:
  "get_cjk_glyph [20013 \<mapsto> glyph_right_of_cell] 20013 = Inr (replicate 24 0)"
proof -
  have "\<forall>x y. 0 \<le> x \<and> x < 12 \<and> 0 \<le> y \<and> y < 16 \<longrightarrow> \<not> box_covers glyph_right_of_cell x y"
    by (simp add: box_covers_def glyph_right_of_cell_def)
  then show ?thesis
    using glyph_outside_cell_is_blank [of "[20013 \<mapsto> glyph_right_of_cell]" 20013 glyph_right_of_cell]
    by simp
qed

section \<open>The scenarios of the string table\<close>

text \<open>
  Claim C2, as the code has it. For \<^verbatim>\<open>["ab", "cdab", "xyz"]\<close> under the ASCII table,
  \<^verbatim>\<open>"ab"\<close> is remapped onto \<^verbatim>\<open>"cdab"\<close> at offset 2, the array holds
  \<^verbatim>\<open>cdab\0xyz\0\<close> in the order of the string table, and the offsets are \<open>[2, 0, 5]\<close>:
  position 0 points at the bytes \<^verbatim>\<open>ab\0\<close> found at 2, 3 and 4.
\<close>

theorem scenario_ab_cdab_xyz:
  "suffix_merge ascii_table [str_ab, str_cdab, str_xyz] =
     Inr [Some \<lparr>str_index = 1, str_start_offset = 2\<rparr>, None, None] \<and>
   translation_strings ascii_table [str_ab, str_cdab, str_xyz] =
     Inr ([99, 100, 97, 98, 0, 120, 121, 122, 0], [2, 0, 5]) \<and>
   take 3 (drop 2 [99, 100, 97, 98, 0, 120, 121, 122, 0 :: byte]) = [97, 98, 0] \<and>
   read_string [99, 100, 97, 98, 0, 120, 121, 122, 0] 2 = [97, 98]"
  by code_simp

text \<open>
  Claim C2 as stated fails: the result is not the array \<^verbatim>\<open>xyz\0cdab\0\<close> with the
  offsets \<open>[5, 2, 0]\<close>, and the offsets are not \<open>[5, 2, 0]\<close> with any array.
\<close>

theorem scenario_ab_cdab_xyz_counterexample:
  "translation_strings ascii_table [str_ab, str_cdab, str_xyz] \<noteq>
     Inr ([120, 121, 122, 0, 99, 100, 97, 98, 0], [5, 2, 0]) \<and>
   snd (projr (translation_strings ascii_table [str_ab, str_cdab, str_xyz])) \<noteq> [5, 2, 0]"
  by code_simp

text \<open>
  Claim C1 says that for every string table whose strings encode, the function produces
  the array and the offsets, and that every string is read back at its offset. On the two
  inputs below it produces nothing: when the last entry of the sorted table has another
  string's code as a suffix, the scan of lines 781 and 782 reads past the end of the table
  and the function raises IndexError. The second input is the example of the source's
  own comment. (Where the function returns, the strings are read back: \<open>read_back\<close>.)
\<close>

theorem suffix_scan_overrun:
  "translation_strings ascii_table [str_ab, str_cdab] = Inl IndexError \<and>
   translation_strings ascii_table [str_ef, str_cdef, str_abcdef] = Inl IndexError"
  by code_simp

section \<open>Properties of the symbol allocation table\<close>

lemma distinct_forced_first_symbols: "distinct forced_first_symbols"
  by (simp add: forced_first_symbols_def)

lemma length_forced_first_symbols: "length forced_first_symbols = 10"
  by (simp add: forced_first_symbols_def)

lemma distinct_candidate_list: "distinct text_list \<Longrightarrow> distinct (candidate_list text_list)"
  by (auto simp: candidate_list_def distinct_forced_first_symbols)


text \<open>Forcing the digits to the front never shortens a list without duplicates.\<close>

lemma length_candidate_list:
  assumes "distinct text_list"
  shows "length text_list \<le> length (candidate_list text_list)"
proof -
  let ?D = "\<lambda>x. x \<in> set forced_first_symbols"
  have "distinct (filter ?D text_list)" using assms by simp
  then have "length (filter ?D text_list) = card (set (filter ?D text_list))"
    by (rule distinct_card [symmetric])
  also have "\<dots> \<le> card (set forced_first_symbols)"
    by (rule card_mono) auto
  also have "\<dots> \<le> 10"
    using card_length [of forced_first_symbols] by (simp add: length_forced_first_symbols)
  finally have d: "length (filter ?D text_list) \<le> 10" .
  have "length text_list = length (filter ?D text_list) + length (filter (\<lambda>x. \<not> ?D x) text_list)"
    by (rule sum_length_filter_compl [symmetric])
  with d show ?thesis
    by (simp add: candidate_list_def length_forced_first_symbols)
qed

lemma too_many_per_font:
  assumes "distinct text_list" "4063 < length text_list" "font0 = NAME_ASCII_BASIC env"
  shows "get_font_map_per_font env text_list (font0 # others) =
           Inl (ValueError ''Error, too many used symbols for this version'')"
  using assms by (simp add: get_font_map_per_font_def distinct_card)

lemma too_many_fails:
  assumes "4063 < length text_list"
  shows "isl (get_font_map_per_font env text_list fonts)"
  using assms by (cases fonts) (simp_all add: get_font_map_per_font_def Let_def)

text \<open>
  Claim C6. The builder fails whenever the count of used symbols, the digits included,
  exceeds 4063, and so whenever more than 4063 different symbols are required. With
  required symbols free of duplicates and the basic ASCII font first, the failure is the
  error on the symbol count.
\<close>

theorem too_many_symbols:
  assumes "4063 < length (candidate_list text_list) \<or>
           (distinct text_list \<and> 4063 < length text_list)"
  shows "isl (get_font_map_and_table env text_list fonts) \<and>
         (distinct text_list \<and> fonts \<noteq> [] \<and> hd fonts = NAME_ASCII_BASIC env \<longrightarrow>
            get_font_map_and_table env text_list fonts =
              Inl (ValueError ''Error, too many used symbols for this version''))"
proof -
  have n: "4063 < length (candidate_list text_list)"
    using assms length_candidate_list [of text_list] by auto
  have "isl (get_font_map_and_table env text_list fonts)"
    using too_many_fails [OF n, of env fonts]
    by (cases "get_font_map_per_font env (candidate_list text_list) fonts")
       (simp_all add: get_font_map_and_table_def)
  moreover have "get_font_map_and_table env text_list fonts =
      Inl (ValueError ''Error, too many used symbols for this version'')"
    if "distinct text_list" "fonts \<noteq> []" "hd fonts = NAME_ASCII_BASIC env"
  proof -
    from that(2) obtain font0 others where f: "fonts = font0 # others" by (cases fonts) auto
    with that(3) have "font0 = NAME_ASCII_BASIC env" by simp
    from too_many_per_font [OF distinct_candidate_list [OF that(1)] n this, of others] f
    show ?thesis by (simp add: get_font_map_and_table_def)
  qed
  ultimately show ?thesis by blast
qed

theorem too_many_symbols_witness:
  "distinct symbols_4065 \<and> length symbols_4065 = 4065 \<and>
   get_font_map_and_table env_cover_all symbols_4065 [''ascii_basic''] =
     Inl (ValueError ''Error, too many used symbols for this version'')"
proof -
  have d: "distinct symbols_4065"
    unfolding symbols_4065_def by (rule distinct_upt)
  have len: "length symbols_4065 = 4065"
    unfolding symbols_4065_def by (simp only: length_upt)
  have n: "hd [''ascii_basic''] = NAME_ASCII_BASIC env_cover_all"
    by (simp add: env_cover_all_def)
  have l: "4063 < length (candidate_list symbols_4065) \<or>
           (distinct symbols_4065 \<and> 4063 < length symbols_4065)"
    using d len by simp
  from too_many_symbols [OF l, of env_cover_all "[''ascii_basic'']"] d n len show ?thesis
    by simp
qed

lemma split_by_small_result:
  assumes "split_by_small m xs (a, b) = Inr (a', b')"
  shows "a' = a @ filter (\<lambda>s. m s \<noteq> Some None) xs \<and>
         b' = b @ filter (\<lambda>s. m s = Some None) xs \<and>
         (\<forall>s\<in>set xs. m s \<noteq> None)"
  using assms
proof (induction xs arbitrary: a b)
  case Nil
  then show ?case by simp
next
  case (Cons s xs)
  show ?case
  proof (cases "m s")
    case None
    with Cons.prems show ?thesis by simp
  next
    case (Some small)
    show ?thesis
    proof (cases small)
      case None
      with Some Cons.prems have "split_by_small m xs (a, b @ [s]) = Inr (a', b')" by simp
      from Cons.IH [OF this] Some None show ?thesis by simp
    next
      case (Some bits)
      with \<open>m s = Some small\<close> Cons.prems
      have "split_by_small m xs (a @ [s], b) = Inr (a', b')" by simp
      from Cons.IH [OF this] Some \<open>m s = Some small\<close> show ?thesis by simp
    qed
  qed
qed

text \<open>What a successful run of the builder went through.\<close>

lemma get_font_map_and_table_steps:
  assumes "get_font_map_and_table env text_list fonts = Inr (sym_list, font_map, symbol_map)"
  shows "\<exists>both large_only.
           split_by_small (font06 font_map) (candidate_list text_list) ([], []) =
             Inr (both, large_only) \<and>
           sym_list = both @ large_only \<and>
           assign_symbol_bytes (enumerate 2 sym_list) [10 \<mapsto> [0x01]] = Inr symbol_map"
  using assms
  by (auto simp: get_font_map_and_table_def Let_def split: sum.splits prod.splits)

lemma final_order:
  assumes "get_font_map_and_table env text_list fonts = Inr (sym_list, font_map, symbol_map)"
  shows "sym_list =
           filter (\<lambda>s. font06 font_map s \<noteq> Some None) (candidate_list text_list) @
           filter (\<lambda>s. font06 font_map s = Some None) (candidate_list text_list)"
    and "\<forall>s\<in>set (candidate_list text_list). font06 font_map s \<noteq> None"
  using get_font_map_and_table_steps [OF assms] split_by_small_result by fastforce+

lemma partitioned_order:
  assumes "xs = filter (\<lambda>s. \<not> P s) cs @ filter P cs" "i < j" "j < length xs" "P (xs ! i)"
  shows "P (xs ! j)"
proof -
  let ?A = "filter (\<lambda>s. \<not> P s) cs" and ?B = "filter P cs"
  have "\<not> i < length ?A"
  proof
    assume "i < length ?A"
    then have "xs ! i = ?A ! i" using assms(1) by (simp add: nth_append)
    with \<open>i < length ?A\<close> have "xs ! i \<in> set ?A" by (metis nth_mem)
    with assms(4) show False by simp
  qed
  then have "\<not> j < length ?A" using assms(2) by simp
  then have "xs ! j = ?B ! (j - length ?A)" using assms(1) by (simp add: nth_append)
  moreover have "j - length ?A < length ?B" using assms(1,3) \<open>\<not> j < length ?A\<close> by simp
  ultimately have "xs ! j \<in> set ?B" by (metis nth_mem)
  then show ?thesis by simp
qed

text \<open>
  Claim C8. The final list is the symbols of the candidate list that have a small bitmap,
  in their order, followed by those that have the large bitmap only, in their order; so
  once a large-only symbol occurs, every later symbol is large-only.
\<close>

theorem both_sizes_before_large_only:
  assumes "get_font_map_and_table env text_list fonts = Inr (sym_list, font_map, symbol_map)"
  shows "sym_list =
           filter (\<lambda>s. font06 font_map s \<noteq> Some None) (candidate_list text_list) @
           filter (\<lambda>s. font06 font_map s = Some None) (candidate_list text_list) \<and>
         (\<forall>i j. i < j \<and> j < length sym_list \<and> font06 font_map (sym_list ! i) = Some None \<longrightarrow>
                font06 font_map (sym_list ! j) = Some None)"
proof -
  have eq: "sym_list =
      filter (\<lambda>s. \<not> font06 font_map s = Some None) (candidate_list text_list) @
      filter (\<lambda>s. font06 font_map s = Some None) (candidate_list text_list)"
    using final_order(1) [OF assms] by simp
  have "font06 font_map (sym_list ! j) = Some None"
    if "i < j" "j < length sym_list" "font06 font_map (sym_list ! i) = Some None" for i j
    using partitioned_order [of sym_list "\<lambda>s. font06 font_map s = Some None", OF eq that] .
  with eq show ?thesis by blast
qed

text \<open>Evaluating the builder on the two font environments.\<close>

lemma blank_glyph_packed:
  assumes "font s = Some blank_glyph"
  shows "get_cjk_glyph font s = Inr (replicate 24 0)"
proof -
  have "\<And>x y. 0 \<le> x \<Longrightarrow> x < 12 \<Longrightarrow> 0 \<le> y \<Longrightarrow> y < 16 \<Longrightarrow> \<not> box_covers blank_glyph x y"
    by (simp add: box_covers_def blank_glyph_def)
  from blank_block [of blank_glyph, OF this]
  have "block_columns blank_glyph 0 [0..<12] [] = Inr (replicate 12 0)"
    "block_columns blank_glyph 1 [0..<12] (replicate 12 0) = Inr (replicate 12 0 @ replicate 12 0)"
    by simp_all
  moreover have "[0..<2] = [0, 1]" by (simp add: upt_rec)
  ultimately show ?thesis
    using assms by (simp add: get_cjk_glyph_def replicate_add [symmetric])
qed

lemma first_codes:
  "get_bytes_from_font_index 2 = Inr [2]" "get_bytes_from_font_index 3 = Inr [3]"
  "get_bytes_from_font_index 4 = Inr [4]" "get_bytes_from_font_index 5 = Inr [5]"
  "get_bytes_from_font_index 6 = Inr [6]" "get_bytes_from_font_index 7 = Inr [7]"
  "get_bytes_from_font_index 8 = Inr [8]" "get_bytes_from_font_index 9 = Inr [9]"
  "get_bytes_from_font_index 10 = Inr [10]" "get_bytes_from_font_index 11 = Inr [11]"
  "get_bytes_from_font_index 12 = Inr [12]" "get_bytes_from_font_index 13 = Inr [13]"
  by (simp_all add: get_bytes_from_font_index_def py_bytes_def)

lemmas builder_eval = get_font_map_and_table_def get_font_map_per_font_def candidate_list_def
  forced_first_symbols_def Let_def insert_Diff_if blank_glyph_packed enumerate_eq_zip upt_rec
  first_codes

lemma not_isl_triple:
  "\<not> isl r \<Longrightarrow> r = Inr (fst (projr r), fst (snd (projr r)), snd (snd (projr r)))"
  by (cases r) simp_all

lemma env_ascii_run:
  "\<not> isl (get_font_map_and_table env_ascii [20013, 97] [''ascii_basic'', ''cjk''])"
  "fst (projr (get_font_map_and_table env_ascii [20013, 97] [''ascii_basic'', ''cjk''])) =
     [48, 49, 50, 51, 52, 53, 54, 55, 56, 57, 97, 20013]"
  "font06 (fst (snd (projr
     (get_font_map_and_table env_ascii [20013, 97] [''ascii_basic'', ''cjk'']))))
     20013 = Some None"
  "\<forall>d\<in>set forced_first_symbols. font06 (fst (snd (projr
     (get_font_map_and_table env_ascii [20013, 97] [''ascii_basic'', ''cjk'']))))
     d \<noteq> Some None"
  by (simp_all add: builder_eval env_ascii_def)

theorem both_sizes_before_large_only_witness:
  "\<not> isl (get_font_map_and_table env_ascii [20013, 97] [''ascii_basic'', ''cjk'']) \<and>
   (let r = projr (get_font_map_and_table env_ascii [20013, 97] [''ascii_basic'', ''cjk''])
    in fst r =
         filter (\<lambda>s. font06 (fst (snd r)) s \<noteq> Some None) (candidate_list [20013, 97]) @
         filter (\<lambda>s. font06 (fst (snd r)) s = Some None) (candidate_list [20013, 97]) \<and>
       fst r = [48, 49, 50, 51, 52, 53, 54, 55, 56, 57, 97, 20013] \<and>
       font06 (fst (snd r)) 20013 = Some None)"
proof -
  let ?R = "get_font_map_and_table env_ascii [20013, 97] [''ascii_basic'', ''cjk'']"
  have ev: "\<not> isl ?R \<and> fst (projr ?R) = [48, 49, 50, 51, 52, 53, 54, 55, 56, 57, 97, 20013] \<and>
      font06 (fst (snd (projr ?R))) 20013 = Some None"
    using env_ascii_run by blast
  then have "?R = Inr (fst (projr ?R), fst (snd (projr ?R)), snd (snd (projr ?R)))"
    using not_isl_triple by blast
  from both_sizes_before_large_only [OF this] ev show ?thesis
    by (simp add: Let_def)
qed












text \<open>
  The assumption on the basic ASCII font is needed. In \<open>env_no_zero\<close> the basic ASCII
  font is first and every symbol is covered, but the digit zero comes from the CJK font,
  has no small bitmap and goes last: it gets index 12 and the letter \<^verbatim>\<open>a\<close> index 11.
\<close>

lemma digit_from_cjk_goes_last:
  "\<not> isl (get_font_map_and_table env_no_zero [97] [''ascii_basic'', ''cjk'']) \<and>
   fst (projr (get_font_map_and_table env_no_zero [97] [''ascii_basic'', ''cjk''])) =
     [49, 50, 51, 52, 53, 54, 55, 56, 57, 97, 48] \<and>
   snd (snd (projr (get_font_map_and_table env_no_zero [97] [''ascii_basic'', ''cjk'']))) 48 =
     Some [12] \<and>
   snd (snd (projr (get_font_map_and_table env_no_zero [97] [''ascii_basic'', ''cjk'']))) 97 =
     Some [11]"
  by (simp add: builder_eval env_no_zero_def)

section \<open>Properties of the string table\<close>

declare scan_suffix_run.simps [simp del]

lemma backward_entries_result:
  assumes "backward_entries table (enumerate k strs) = Inr es"
  shows "length es = length strs \<and>
         (\<forall>p<length strs. \<exists>conv. convert_string_bytes table (strs ! p) = Inr conv \<and>
              es ! p = (k + p, strs ! p, rev conv))"
  using assms
proof (induction strs arbitrary: k es)
  case Nil
  then show ?case by simp
next
  case (Cons s strs)
  from Cons.prems obtain conv es' where
    c: "convert_string_bytes table s = Inr conv"
    and r: "backward_entries table (enumerate (Suc k) strs) = Inr es'"
    and e: "es = (k, s, rev conv) # es'"
    by (auto split: sum.splits)
  from Cons.IH [OF r] have
    l: "length es' = length strs" and
    n: "\<forall>p<length strs. \<exists>conv. convert_string_bytes table (strs ! p) = Inr conv \<and>
              es' ! p = (Suc k + p, strs ! p, rev conv)"
    by blast+
  have "\<exists>conv. convert_string_bytes table ((s # strs) ! p) = Inr conv \<and>
              es ! p = (k + p, (s # strs) ! p, rev conv)" if "p < length (s # strs)" for p
  proof (cases p)
    case 0
    with c e show ?thesis by simp
  next
    case (Suc q)
    with that n e show ?thesis by simp
  qed
  with l e show ?case by simp
qed

text \<open>The sorted table: one entry per string, each with the reversed code of its string.\<close>

lemma backward_sorted_table_result:
  assumes "backward_sorted_table table strs = Inr tbl"
  shows "length tbl = length strs"
    and "distinct (map fst tbl)"
    and "\<forall>e\<in>set tbl. fst e < length strs \<and>
            convert_string_bytes table (strs ! fst e) = Inr (rev (snd (snd e)))"
    and "\<forall>a<length strs. \<exists>conv. convert_string_bytes table (strs ! a) = Inr conv"
proof -
  from assms obtain es where
    es: "backward_entries table (enumerate 0 strs) = Inr es"
    and tbl: "tbl = sort_key (\<lambda>x. snd (snd x)) es"
    by (auto simp: backward_sorted_table_def split: sum.splits)
  from backward_entries_result [OF es] have
    l: "length es = length strs" and
    n: "\<forall>p<length strs. \<exists>conv. convert_string_bytes table (strs ! p) = Inr conv \<and>
              es ! p = (0 + p, strs ! p, rev conv)"
    by blast+
  show "length tbl = length strs" using tbl l by simp
  have "map fst es = [0..<length strs]"
    using l n by (intro nth_equalityI) auto
  then have "distinct (map fst es)" by simp
  then have "card (set (map fst es)) = length (map fst es)" by (rule distinct_card)
  moreover have "set (map fst tbl) = set (map fst es)" "length (map fst tbl) = length (map fst es)"
    using tbl by simp_all
  ultimately have "card (set (map fst tbl)) = length (map fst tbl)" by simp
  then show "distinct (map fst tbl)" by (rule card_distinct)
  show "\<forall>e\<in>set tbl. fst e < length strs \<and>
            convert_string_bytes table (strs ! fst e) = Inr (rev (snd (snd e)))"
  proof
    fix e assume "e \<in> set tbl"
    then have "e \<in> set es" using tbl by simp
    then obtain p where p: "p < length es" "es ! p = e" by (auto simp: in_set_conv_nth)
    with l n obtain conv where
      "convert_string_bytes table (strs ! p) = Inr conv" "e = (p, strs ! p, rev conv)"
      by force
    with p l show "fst e < length strs \<and>
            convert_string_bytes table (strs ! fst e) = Inr (rev (snd (snd e)))" by simp
  qed
  show "\<forall>a<length strs. \<exists>conv. convert_string_bytes table (strs ! a) = Inr conv"
    using n by blast
qed

lemma scan_suffix_run_result:
  assumes "scan_suffix_run tbl conv i = Inr j"
  shows "i \<le> j \<and> j + 1 < length tbl \<and>
         \<not> prefix conv (snd (snd (tbl ! (j + 1)))) \<and>
         (\<forall>k. i < k \<and> k \<le> j \<longrightarrow> prefix conv (snd (snd (tbl ! k))))"
  using assms
proof (induction tbl conv i rule: scan_suffix_run.induct)
  case (1 tbl conv i)
  from "1.prems" have inr: "i + 1 < length tbl"
    by (subst (asm) scan_suffix_run.simps) (simp split: if_splits)
  show ?case
  proof (cases "prefix conv (snd (snd (tbl ! (i + 1))))")
    case True
    with inr "1.prems" have "scan_suffix_run tbl conv (i + 1) = Inr j"
      by (subst (asm) scan_suffix_run.simps) simp
    from "1.IH" [OF inr True this] have
      a: "i + 1 \<le> j" "j + 1 < length tbl" "\<not> prefix conv (snd (snd (tbl ! (j + 1))))"
      and b: "\<forall>k. i + 1 < k \<and> k \<le> j \<longrightarrow> prefix conv (snd (snd (tbl ! k)))"
      by blast+
    have "prefix conv (snd (snd (tbl ! k)))" if "i < k" "k \<le> j" for k
    proof (cases "k = i + 1")
      case True
      with \<open>prefix conv (snd (snd (tbl ! (i + 1))))\<close> show ?thesis by simp
    next
      case False
      with that b show ?thesis by simp
    qed
    with a show ?thesis by simp
  next
    case False
    with inr "1.prems" have "j = i"
      by (subst (asm) scan_suffix_run.simps) simp
    with inr False show ?thesis by auto
  qed
qed

lemma remap_loop_inv:
  assumes "\<forall>ie\<in>set ies. fst ie < length tbl \<and> snd ie = tbl ! fst ie"
    and "remap_inv tbl rm"
    and "remap_loop tbl ies rm = Inr rm'"
  shows "remap_inv tbl rm' \<and> length rm' = length rm"
  using assms
proof (induction ies arbitrary: rm)
  case Nil
  then show ?case by simp
next
  case (Cons ie ies)
  obtain i sidx src conv where ie: "ie = (i, sidx, src, conv)"
    by (metis prod_cases4)
  from Cons.prems(1) ie have ent: "i < length tbl" "tbl ! i = (sidx, src, conv)" by simp_all
  from Cons.prems(3) ie obtain j where
    scan: "scan_suffix_run tbl conv i = Inr j"
    by (auto split: sum.splits)
  define rm1 where "rm1 = (if j \<noteq> i then
       rm[sidx := Some \<lparr>str_index = fst (tbl ! j),
            str_start_offset = int (length (snd (snd (tbl ! j)))) - int (length conv)\<rparr>]
     else rm)"
  from Cons.prems(3) ie scan have rest: "remap_loop tbl ies rm1 = Inr rm'"
    by (simp add: rm1_def)
  from scan_suffix_run_result [OF scan] have
    sc: "i \<le> j" "j + 1 < length tbl" "\<not> prefix conv (snd (snd (tbl ! (j + 1))))"
    and run: "\<forall>k. i < k \<and> k \<le> j \<longrightarrow> prefix conv (snd (snd (tbl ! k)))"
    by blast+
  have inv1: "remap_inv tbl rm1"
  proof (cases "j = i")
    case True
    then show ?thesis using Cons.prems(2) by (simp add: rm1_def)
  next
    case False
    then have lt: "i < j" using sc(1) by simp
    have new: "\<exists>p j'. p < j' \<and> j' + 1 < length tbl \<and> fst (tbl ! p) = sidx \<and>
               fst (tbl ! j) = fst (tbl ! j') \<and>
               int (length (snd (snd (tbl ! j)))) - int (length conv) =
                 int (length (snd (snd (tbl ! j')))) - int (length (snd (snd (tbl ! p)))) \<and>
               prefix (snd (snd (tbl ! p))) (snd (snd (tbl ! (p + 1)))) \<and>
               prefix (snd (snd (tbl ! p))) (snd (snd (tbl ! j'))) \<and>
               \<not> prefix (snd (snd (tbl ! p))) (snd (snd (tbl ! (j' + 1))))"
    proof (rule exI [of _ i], rule exI [of _ j], intro conjI)
      show "prefix (snd (snd (tbl ! i))) (snd (snd (tbl ! (i + 1))))"
        using run lt ent by simp
      show "prefix (snd (snd (tbl ! i))) (snd (snd (tbl ! j)))"
        using run lt ent by simp
    qed (use lt sc ent in simp_all)
    show ?thesis
      unfolding remap_inv_def
    proof (intro allI impI)
      fix a r assume ar: "a < length rm1 \<and> rm1 ! a = Some r"
      show "\<exists>p j. p < j \<and> j + 1 < length tbl \<and> fst (tbl ! p) = a \<and>
               str_index r = fst (tbl ! j) \<and>
               str_start_offset r =
                 int (length (snd (snd (tbl ! j)))) - int (length (snd (snd (tbl ! p)))) \<and>
               prefix (snd (snd (tbl ! p))) (snd (snd (tbl ! (p + 1)))) \<and>
               prefix (snd (snd (tbl ! p))) (snd (snd (tbl ! j))) \<and>
               \<not> prefix (snd (snd (tbl ! p))) (snd (snd (tbl ! (j + 1))))"
      proof (cases "a = sidx")
        case True
        with ar False have "r = \<lparr>str_index = fst (tbl ! j),
            str_start_offset = int (length (snd (snd (tbl ! j)))) - int (length conv)\<rparr>"
          by (auto simp: rm1_def)
        with new True show ?thesis by simp
      next
        case False
        with ar \<open>j \<noteq> i\<close> have "a < length rm \<and> rm ! a = Some r"
          by (auto simp: rm1_def)
        with Cons.prems(2) show ?thesis unfolding remap_inv_def by blast
      qed
    qed
  qed
  have "\<forall>ie\<in>set ies. fst ie < length tbl \<and> snd ie = tbl ! fst ie"
    using Cons.prems(1) by simp
  from Cons.IH [OF this inv1 rest] show ?case by (simp add: rm1_def)
qed

lemma enumerate_butlast_entries:
  "\<forall>ie\<in>set (enumerate 0 (butlast tbl)). fst ie < length tbl \<and> snd ie = tbl ! fst ie"
  by (auto simp: in_set_enumerate_eq nth_butlast)

lemma suffix_merge_inv:
  assumes "suffix_merge table strs = Inr rm"
  shows "\<exists>tbl. backward_sorted_table table strs = Inr tbl \<and> remap_inv tbl rm \<and>
           length rm = length strs"
proof -
  from assms obtain tbl where
    tbl: "backward_sorted_table table strs = Inr tbl"
    and loop: "remap_loop tbl (enumerate 0 (butlast tbl)) (replicate (length strs) None) = Inr rm"
    by (auto simp: suffix_merge_def split: sum.splits)
  have "remap_inv tbl (replicate (length strs) None)"
    by (auto simp: remap_inv_def)
  from remap_loop_inv [OF enumerate_butlast_entries this loop] tbl show ?thesis by simp
qed

text \<open>What the suffix merging guarantees about the codes of the strings.\<close>

lemma suffix_merge_sound:
  assumes "suffix_merge table strs = Inr rm"
    and enc: "\<forall>a<length strs. convert_string_bytes table (strs ! a) = Inr (enc a)"
  shows "remap_sound enc rm" and "length rm = length strs"
proof -
  from suffix_merge_inv [OF assms(1)] obtain tbl where
    tbl: "backward_sorted_table table strs = Inr tbl"
    and inv: "remap_inv tbl rm" and len: "length rm = length strs"
    by blast
  note t = backward_sorted_table_result [OF tbl]
  show "length rm = length strs" by (rule len)
  have key: "snd (snd (tbl ! p)) = rev (enc (fst (tbl ! p)))" "fst (tbl ! p) < length strs"
    if "p < length tbl" for p
  proof -
    from that have "tbl ! p \<in> set tbl" by simp
    with t(3) have f: "fst (tbl ! p) < length strs"
      and c: "convert_string_bytes table (strs ! fst (tbl ! p)) = Inr (rev (snd (snd (tbl ! p))))"
      by blast+
    from f enc c have "enc (fst (tbl ! p)) = rev (snd (snd (tbl ! p)))" by simp
    then show "snd (snd (tbl ! p)) = rev (enc (fst (tbl ! p)))" by simp
    show "fst (tbl ! p) < length strs" by (rule f)
  qed
  show "remap_sound enc rm"
    unfolding remap_sound_def
  proof (intro allI impI)
    fix a r assume ar: "a < length rm \<and> rm ! a = Some r"
    with inv obtain p j where
      pj: "p < j" "j + 1 < length tbl" "fst (tbl ! p) = a" "str_index r = fst (tbl ! j)"
      and so: "str_start_offset r =
                 int (length (snd (snd (tbl ! j)))) - int (length (snd (snd (tbl ! p))))"
      and p1: "prefix (snd (snd (tbl ! p))) (snd (snd (tbl ! (p + 1))))"
      and p2: "prefix (snd (snd (tbl ! p))) (snd (snd (tbl ! j)))"
      and p3: "\<not> prefix (snd (snd (tbl ! p))) (snd (snd (tbl ! (j + 1))))"
      unfolding remap_inv_def by blast
    let ?b = "str_index r"
    have kp: "snd (snd (tbl ! p)) = rev (enc a)" using key(1) [of p] pj by simp
    have kj: "snd (snd (tbl ! j)) = rev (enc ?b)" using key(1) [of j] pj by simp
    have b: "?b < length rm" using key(2) [of j] pj len by simp
    have none: "rm ! ?b = None"
    proof (rule ccontr)
      assume "rm ! ?b \<noteq> None"
      then obtain r' where "rm ! ?b = Some r'" by blast
      with inv b obtain p' j' where
        q: "p' < j'" "j' + 1 < length tbl" "fst (tbl ! p') = ?b"
        and q1: "prefix (snd (snd (tbl ! p'))) (snd (snd (tbl ! (p' + 1))))"
        unfolding remap_inv_def by blast
      have "p' < length (map fst tbl)" "j < length (map fst tbl)" using q pj by simp_all
      moreover have "map fst tbl ! p' = map fst tbl ! j" using q pj by simp
      ultimately have "p' = j" using t(2) nth_eq_iff_index_eq by blast
      with q1 have "prefix (snd (snd (tbl ! j))) (snd (snd (tbl ! (j + 1))))" by simp
      with p2 have "prefix (snd (snd (tbl ! p))) (snd (snd (tbl ! (j + 1))))"
        by (rule prefix_order.trans)
      with p3 show False by simp
    qed
    from p2 kp kj have "prefix (rev (enc a)) (rev (enc ?b))" by simp
    then have "suffix (enc a) (enc ?b)" by (simp add: suffix_to_prefix)
    then obtain xs where xs: "enc ?b = xs @ enc a" by (auto simp: suffix_def)
    have so': "str_start_offset r = int (length xs)"
      using so kp kj xs by simp
    show "str_index r < length rm \<and> rm ! str_index r = None \<and>
        0 \<le> str_start_offset r \<and>
        nat (str_start_offset r) \<le> length (enc (str_index r)) \<and>
        drop (nat (str_start_offset r)) (enc (str_index r)) = enc a"
      using b none so' xs by simp
  qed
qed

lemma str_used_by_set:
  "set (str_used_by rm i) =
     insert i {j. j < length rm \<and> (\<exists>r. rm ! j = Some r \<and> str_index r = i)}"
  by (auto simp: str_used_by_def in_set_enumerate_eq image_iff split: option.splits)

lemma str_used_by_distinct:
  assumes "rm ! i = None"
  shows "distinct (str_used_by rm i)"
proof -
  let ?P = "\<lambda>(j, r). case r of None \<Rightarrow> False | Some r' \<Rightarrow> str_index r' = i"
  have "distinct (map fst (enumerate 0 rm))" by simp
  then have "distinct (map fst (filter ?P (enumerate 0 rm)))"
    by (rule distinct_map_filter)
  moreover have "i \<notin> set (map fst (filter ?P (enumerate 0 rm)))"
    using assms by (auto simp: in_set_enumerate_eq split: option.splits)
  ultimately show ?thesis by (simp add: str_used_by_def)
qed

lemma record_offsets_result:
  assumes "distinct js" "\<forall>j\<in>set js. j \<noteq> i \<longrightarrow> rm ! j \<noteq> None"
  shows "\<exists>offs'. record_offsets rm i off js offs = Inr offs' \<and> length offs' = length offs \<and>
           (\<forall>a<length offs. offs' ! a =
              (if a \<in> set js then (if a = i then off else off + start_in_representative rm a)
               else offs ! a))"
  using assms
proof (induction js arbitrary: offs)
  case Nil
  then show ?case by simp
next
  case (Cons j js)
  define v where "v = (if j = i then off else off + start_in_representative rm j)"
  have step: "record_offsets rm i off (j # js) offs = record_offsets rm i off js (offs[j := v])"
    using Cons.prems(2) by (auto simp: v_def start_in_representative_def split: option.splits)
  from Cons.prems have "distinct js" "\<forall>j\<in>set js. j \<noteq> i \<longrightarrow> rm ! j \<noteq> None" by simp_all
  from Cons.IH [OF this, of "offs[j := v]"] obtain offs' where
    r: "record_offsets rm i off js (offs[j := v]) = Inr offs'"
    and l: "length offs' = length offs"
    and n: "\<forall>a<length offs. offs' ! a =
              (if a \<in> set js then (if a = i then off else off + start_in_representative rm a)
               else offs[j := v] ! a)"
    by auto
  have "j \<notin> set js" using Cons.prems(1) by simp
  then have "\<forall>a<length offs. offs' ! a =
              (if a \<in> set (j # js) then (if a = i then off else off + start_in_representative rm a)
               else offs ! a)"
    using n by (auto simp: v_def nth_list_update)
  with step r l show ?case by simp
qed

text \<open>The offsets recorded when the string at \<open>k\<close>, not remapped, is written.\<close>

lemma record_offsets_of_representative:
  assumes "rm ! k = None" "k < length rm" "length offs = length rm"
  shows "\<exists>offs'. record_offsets rm k off (str_used_by rm k) offs = Inr offs' \<and>
           length offs' = length rm \<and>
           (\<forall>a<length rm. offs' ! a =
              (if representative rm a = k then off + start_in_representative rm a else offs ! a))"
proof -
  have "\<forall>j\<in>set (str_used_by rm k). j \<noteq> k \<longrightarrow> rm ! j \<noteq> None"
    by (auto simp: str_used_by_set)
  from record_offsets_result [OF str_used_by_distinct [OF assms(1)] this, of off offs]
  obtain offs' where
    r: "record_offsets rm k off (str_used_by rm k) offs = Inr offs'"
    and l: "length offs' = length offs"
    and n: "\<forall>a<length offs. offs' ! a =
              (if a \<in> set (str_used_by rm k)
               then (if a = k then off else off + start_in_representative rm a)
               else offs ! a)"
    by blast
  have mem: "a \<in> set (str_used_by rm k) \<longleftrightarrow> representative rm a = k" if "a < length rm" for a
    using that assms(1)
    by (cases "rm ! a") (auto simp: str_used_by_set representative_def)
  have k0: "start_in_representative rm k = 0"
    using assms(1) by (simp add: start_in_representative_def)
  have "\<forall>a<length rm. offs' ! a =
              (if representative rm a = k then off + start_in_representative rm a else offs ! a)"
    using n mem k0 assms(3) by auto
  with r l assms(3) show ?thesis by simp
qed

lemma representative_of_sound:
  assumes "remap_sound enc rm" "a < length rm"
  shows "representative rm a < length rm" "rm ! representative rm a = None"
    "representative rm (representative rm a) = representative rm a"
    "0 \<le> start_in_representative rm a"
    "nat (start_in_representative rm a) \<le> length (enc (representative rm a))"
    "drop (nat (start_in_representative rm a)) (enc (representative rm a)) = enc a"
proof -
  show "representative rm a < length rm" "rm ! representative rm a = None"
    "0 \<le> start_in_representative rm a"
    "nat (start_in_representative rm a) \<le> length (enc (representative rm a))"
    "drop (nat (start_in_representative rm a)) (enc (representative rm a)) = enc a"
    using assms
    by (cases "rm ! a"; simp add: remap_sound_def representative_def start_in_representative_def)+
  then show "representative rm (representative rm a) = representative rm a"
    by (simp add: representative_def)
qed

text \<open>Skipping a remapped string keeps the state as it should be.\<close>

lemma written_ok_skip:
  assumes "remap_sound enc rm" "written_ok enc rm k st" "rm ! k \<noteq> None"
  shows "written_ok enc rm (Suc k) st"
proof -
  have "representative rm a < k" if "a < length rm" "representative rm a < Suc k" for a
  proof -
    have "representative rm a \<noteq> k"
      using representative_of_sound(2) [OF assms(1) that(1)] assms(3) by auto
    with that(2) show ?thesis by simp
  qed
  with assms(2) show ?thesis unfolding written_ok_def by blast
qed

text \<open>Writing the string at \<open>k\<close>, not remapped, keeps the state as it should be.\<close>

lemma written_ok_write:
  assumes sound: "remap_sound enc rm"
    and ok: "written_ok enc rm k st"
    and k: "k < length rm" "rm ! k = None"
    and offs': "length offs' = length rm"
      "\<forall>a<length rm. offs' ! a =
         (if representative rm a = k then offset st + start_in_representative rm a
          else str_offsets st ! a)"
  shows "written_ok enc rm (Suc k)
           \<lparr>str_offsets = offs'[k := offset st],
            offset = offset st + int (length (enc k)) + 1,
            write_null = True,
            strings_data = (if write_null st then strings_data st @ [0] else strings_data st) @ enc k\<rparr>"
    (is "written_ok enc rm (Suc k) ?st'")
proof -
  let ?B = "array_contents st"
  have B': "array_contents ?st' = ?B @ enc k @ [0]"
    by (simp add: array_contents_def)
  from ok have off: "offset st = int (length ?B)"
    and old: "\<And>a. a < length rm \<Longrightarrow> representative rm a < k \<Longrightarrow>
        0 \<le> str_offsets st ! a \<and>
        str_offsets st ! a = str_offsets st ! representative rm a + start_in_representative rm a \<and>
        (\<exists>rest. drop (nat (str_offsets st ! a)) ?B = enc a @ 0 # rest)"
    unfolding written_ok_def by blast+
  have repk: "representative rm k = k" "start_in_representative rm k = 0"
    using k(2) by (simp_all add: representative_def start_in_representative_def)
  have new: "str_offsets ?st' ! a =
      (if representative rm a = k then offset st + start_in_representative rm a
       else str_offsets st ! a)" if "a < length rm" for a
    using that offs' repk by (cases "a = k") simp_all
  have main: "0 \<le> str_offsets ?st' ! a \<and>
        str_offsets ?st' ! a =
          str_offsets ?st' ! representative rm a + start_in_representative rm a \<and>
        (\<exists>rest. drop (nat (str_offsets ?st' ! a)) (array_contents ?st') = enc a @ 0 # rest)"
    if a: "a < length rm" and r: "representative rm a < Suc k" for a
  proof -
    note rs = representative_of_sound [OF sound a]
    show ?thesis
    proof (cases "representative rm a = k")
      case True
      let ?so = "start_in_representative rm a"
      have va: "str_offsets ?st' ! a = int (length ?B) + ?so"
        using new [OF a] True off by simp
      have vk: "str_offsets ?st' ! k = int (length ?B)"
        using new [OF k(1)] repk off by simp
      have so: "0 \<le> ?so" "nat ?so \<le> length (enc k)" "drop (nat ?so) (enc k) = enc a"
        using rs(4,5,6) True by simp_all
      have "nat (int (length ?B) + ?so) = length ?B + nat ?so"
        using so(1) by simp
      then have "drop (nat (str_offsets ?st' ! a)) (array_contents ?st') =
          drop (nat ?so) (enc k @ [0])"
        using va B' by simp
      also have "\<dots> = enc a @ [0]" using so(2,3) by simp
      finally have "\<exists>rest. drop (nat (str_offsets ?st' ! a)) (array_contents ?st') =
          enc a @ 0 # rest" by simp
      moreover have "0 \<le> str_offsets ?st' ! a" using va so(1) by simp
      moreover have "str_offsets ?st' ! a = str_offsets ?st' ! representative rm a + ?so"
        using va vk True by simp
      ultimately show ?thesis by blast
    next
      case False
      with r have lt: "representative rm a < k" by simp
      from old [OF a lt] obtain rest where
        o: "0 \<le> str_offsets st ! a"
          "str_offsets st ! a = str_offsets st ! representative rm a + start_in_representative rm a"
          "drop (nat (str_offsets st ! a)) ?B = enc a @ 0 # rest"
        by blast
      have va: "str_offsets ?st' ! a = str_offsets st ! a"
        using new [OF a] False by simp
      have "representative rm (representative rm a) \<noteq> k" using rs(3) False by simp
      then have vr: "str_offsets ?st' ! representative rm a = str_offsets st ! representative rm a"
        using new [OF rs(1)] by simp
      have inside: "nat (str_offsets st ! a) \<le> length ?B"
      proof (rule ccontr)
        assume "\<not> nat (str_offsets st ! a) \<le> length ?B"
        then have "drop (nat (str_offsets st ! a)) ?B = []" by simp
        with o(3) show False by simp
      qed
      have "drop (nat (str_offsets ?st' ! a)) (array_contents ?st') =
          enc a @ 0 # (rest @ enc k @ [0])"
        using va B' o(3) inside by simp
      with va vr o(1,2) show ?thesis by simp
    qed
  qed
  have "length (str_offsets ?st') = length rm" using offs'(1) by simp
  moreover have "offset ?st' = int (length (array_contents ?st'))"
    using off B' by simp
  ultimately show ?thesis
    unfolding written_ok_def using main by blast
qed

lemma write_strings_inv:
  assumes sound: "remap_sound enc rm"
    and enc: "\<forall>a<length rm. convert_string_bytes table (strs ! a) = Inr (enc a)"
    and len: "length strs = length rm"
    and ss: "ss = drop k strs"
    and ok: "written_ok enc rm k st"
  shows "\<exists>st'. write_strings table rm (enumerate k ss) st = Inr st' \<and>
           written_ok enc rm (length rm) st'"
  using ss ok
proof (induction ss arbitrary: k st)
  case Nil
  then have "length rm \<le> k" using len by simp
  moreover have "representative rm a < length rm" if "a < length rm" for a
    using representative_of_sound(1) [OF sound that] .
  ultimately have "written_ok enc rm (length rm) st"
    using Nil.prems(2) unfolding written_ok_def by (meson less_le_trans)
  then show ?case by simp
next
  case (Cons s ss)
  from Cons.prems(1) have k: "k < length rm"
    using len by (metis drop_all list.distinct(1) not_le)
  from Cons.prems(1) have s: "s = strs ! k" and rest: "ss = drop (Suc k) strs"
    using k len by (metis Cons_nth_drop_Suc list.inject)+
  show ?case
  proof (cases "rm ! k")
    case (Some r)
    then have "written_ok enc rm (Suc k) st"
      using written_ok_skip [OF sound Cons.prems(2)] by simp
    from Cons.IH [OF rest this] Some show ?thesis by simp
  next
    case None
    from Cons.prems(2) have lo: "length (str_offsets st) = length rm"
      unfolding written_ok_def by blast
    from record_offsets_of_representative [OF None k lo, of "offset st"]
    obtain offs' where
      r: "record_offsets rm k (offset st) (str_used_by rm k) (str_offsets st) = Inr offs'"
      and o: "length offs' = length rm"
        "\<forall>a<length rm. offs' ! a =
           (if representative rm a = k then offset st + start_in_representative rm a
            else str_offsets st ! a)"
      by blast
    have c: "convert_string_bytes table s = Inr (enc k)" using enc k s by simp
    from written_ok_write [OF sound Cons.prems(2) k None o]
    have "written_ok enc rm (Suc k)
           \<lparr>str_offsets = offs'[k := offset st],
            offset = offset st + int (length (enc k)) + 1,
            write_null = True,
            strings_data = (if write_null st then strings_data st @ [0] else strings_data st) @ enc k\<rparr>" .
    from Cons.IH [OF rest this] None r c show ?thesis by (simp add: Let_def)
  qed
qed

text \<open>
  When the suffix merging returns, the writing loop returns too, and leaves every string
  with an offset at which the array holds its code followed by a zero byte.
\<close>

lemma translation_strings_result:
  assumes sm: "suffix_merge table strs = Inr rm"
    and enc: "\<forall>a<length strs. convert_string_bytes table (strs ! a) = Inr (enc a)"
  shows "\<exists>blob offs. translation_strings table strs = Inr (blob, offs) \<and>
           length offs = length strs \<and>
           (\<forall>a<length strs.
              0 \<le> offs ! a \<and>
              offs ! a = offs ! representative rm a + start_in_representative rm a \<and>
              (\<exists>rest. drop (nat (offs ! a)) blob = enc a @ 0 # rest))"
proof -
  note s = suffix_merge_sound [OF sm enc]
  let ?st0 = "\<lparr>str_offsets = replicate (length strs) (- 1), offset = 0,
                write_null = False, strings_data = []\<rparr>"
  have ok0: "written_ok enc rm 0 ?st0"
    using s(2) by (simp add: written_ok_def array_contents_def)
  have enc': "\<forall>a<length rm. convert_string_bytes table (strs ! a) = Inr (enc a)"
    using enc s(2) by simp
  have d0: "strs = drop 0 strs" by simp
  from write_strings_inv [OF s(1) enc' s(2) [symmetric] d0 ok0] obtain st' where
    w: "write_strings table rm (enumerate 0 strs) ?st0 = Inr st'"
    and ok: "written_ok enc rm (length rm) st'"
    by blast
  have rep: "representative rm a < length rm" if "a < length rm" for a
    using representative_of_sound(1) [OF s(1) that] .
  have "translation_strings table strs = Inr (array_contents st', str_offsets st')"
    using sm w by (simp add: translation_strings_def)
  moreover have "length (str_offsets st') = length strs"
    using ok s(2) unfolding written_ok_def by simp
  moreover have "\<forall>a<length strs.
              0 \<le> str_offsets st' ! a \<and>
              str_offsets st' ! a =
                str_offsets st' ! representative rm a + start_in_representative rm a \<and>
              (\<exists>rest. drop (nat (str_offsets st' ! a)) (array_contents st') = enc a @ 0 # rest)"
  proof (intro allI impI)
    fix a assume "a < length strs"
    then have "a < length rm \<and> representative rm a < length rm" using rep s(2) by simp
    with ok show "0 \<le> str_offsets st' ! a \<and>
              str_offsets st' ! a =
                str_offsets st' ! representative rm a + start_in_representative rm a \<and>
              (\<exists>rest. drop (nat (str_offsets st' ! a)) (array_contents st') = enc a @ 0 # rest)"
      unfolding written_ok_def by blast
  qed
  ultimately show ?thesis by blast
qed

lemma suffix_merge_encodes:
  assumes "suffix_merge table strs = Inr rm"
  shows "\<forall>a<length strs.
           convert_string_bytes table (strs ! a) =
             Inr (projr (convert_string_bytes table (strs ! a)))"
proof -
  from suffix_merge_inv [OF assms] obtain tbl where
    "backward_sorted_table table strs = Inr tbl" by blast
  from backward_sorted_table_result(4) [OF this] show ?thesis by auto
qed

lemma translation_strings_merged:
  assumes "translation_strings table strs = Inr (blob, offs)"
  shows "\<exists>rm. suffix_merge table strs = Inr rm"
  using assms by (auto simp: translation_strings_def split: sum.splits)

text \<open>
  Reading back. When the function returns, the array holds at the offset of each string
  the code of that string and then a zero byte; a code without a zero byte is what the
  firmware reads there.
\<close>

lemma read_back:
  assumes "translation_strings table strs = Inr (blob, offs)"
    and "a < length strs"
  shows "\<exists>code rest. convert_string_bytes table (strs ! a) = Inr code \<and>
           0 \<le> offs ! a \<and> drop (nat (offs ! a)) blob = code @ 0 # rest \<and>
           (0 \<notin> set code \<longrightarrow> read_string blob (nat (offs ! a)) = code)"
proof -
  from translation_strings_merged [OF assms(1)] obtain rm where
    sm: "suffix_merge table strs = Inr rm" by blast
  let ?enc = "\<lambda>a. projr (convert_string_bytes table (strs ! a))"
  note e = suffix_merge_encodes [OF sm]
  from translation_strings_result [OF sm e] assms obtain rest where
    r: "0 \<le> offs ! a" "drop (nat (offs ! a)) blob = ?enc a @ 0 # rest"
    by auto
  have "read_string blob (nat (offs ! a)) = ?enc a" if "0 \<notin> set (?enc a)"
  proof -
    have "takeWhile (\<lambda>b. b \<noteq> 0) (?enc a @ 0 # rest) = takeWhile (\<lambda>b. b \<noteq> 0) (?enc a)"
      by (rule takeWhile_tail) simp
    also have "\<dots> = ?enc a" using that by (simp add: takeWhile_eq_all_conv) metis
    finally show ?thesis using r(2) by (simp add: read_string_def)
  qed
  with r e assms(2) show ?thesis by blast
qed

text \<open>\<^verbatim>\<open>get_offset\<close> at a position of the list with a non-negative entry.\<close>

lemma get_offset_ok:
  "idx < length offs \<Longrightarrow> 0 \<le> offs ! idx \<Longrightarrow> get_offset offs (int idx) = Inr (offs ! idx)"
  by (simp add: get_offset_def py_get_def)

text \<open>
  Claim C10. When the suffix merging returns, no string is remapped onto a string that
  is remapped itself, and the writing loop returns as well. \<^verbatim>\<open>get_offset\<close> finds a
  non-negative offset for every string, and at that offset the array holds the code of
  the string and a zero byte. The offset of a remapped string is the offset of its
  representative plus the recorded start, which lies inside the code of the
  representative, and that code is in the array at the representative's offset.
\<close>

theorem absorption_one_level:
  assumes "suffix_merge table str_table = Inr str_remapping"
  shows "(\<forall>a r. a < length str_table \<and> str_remapping ! a = Some r \<longrightarrow>
            str_index r < length str_table \<and> str_remapping ! str_index r = None) \<and>
         (\<exists>blob offs. translation_strings table str_table = Inr (blob, offs) \<and>
            length offs = length str_table \<and>
            (\<forall>idx<length str_table.
               get_offset offs (int idx) = Inr (offs ! idx) \<and> 0 \<le> offs ! idx \<and>
               (\<exists>code rest. convert_string_bytes table (str_table ! idx) = Inr code \<and>
                    drop (nat (offs ! idx)) blob = code @ 0 # rest) \<and>
               (\<forall>r. str_remapping ! idx = Some r \<longrightarrow>
                    offs ! idx = offs ! str_index r + str_start_offset r \<and>
                    0 \<le> str_start_offset r \<and>
                    (\<exists>code_r rest_r.
                        convert_string_bytes table (str_table ! str_index r) = Inr code_r \<and>
                        nat (str_start_offset r) \<le> length code_r \<and>
                        drop (nat (offs ! str_index r)) blob = code_r @ 0 # rest_r))))"
proof -
  let ?enc = "\<lambda>a. projr (convert_string_bytes table (str_table ! a))"
  note e = suffix_merge_encodes [OF assms]
  note s = suffix_merge_sound [OF assms e]
  have one: "\<forall>a r. a < length str_table \<and> str_remapping ! a = Some r \<longrightarrow>
            str_index r < length str_table \<and> str_remapping ! str_index r = None"
    using s unfolding remap_sound_def by simp
  from translation_strings_result [OF assms e] obtain blob offs where
    t: "translation_strings table str_table = Inr (blob, offs)"
    and l: "length offs = length str_table"
    and o: "\<forall>a<length str_table. 0 \<le> offs ! a \<and>
              offs ! a = offs ! representative str_remapping a +
                start_in_representative str_remapping a \<and>
              (\<exists>rest. drop (nat (offs ! a)) blob = ?enc a @ 0 # rest)"
    by blast
  have held: "\<exists>code rest. convert_string_bytes table (str_table ! a) = Inr code \<and>
                drop (nat (offs ! a)) blob = code @ 0 # rest"
    if "a < length str_table" for a
    using o e that by blast
  have "get_offset offs (int idx) = Inr (offs ! idx) \<and> 0 \<le> offs ! idx \<and>
          (\<exists>code rest. convert_string_bytes table (str_table ! idx) = Inr code \<and>
               drop (nat (offs ! idx)) blob = code @ 0 # rest) \<and>
          (\<forall>r. str_remapping ! idx = Some r \<longrightarrow>
               offs ! idx = offs ! str_index r + str_start_offset r \<and>
               0 \<le> str_start_offset r \<and>
               (\<exists>code_r rest_r.
                   convert_string_bytes table (str_table ! str_index r) = Inr code_r \<and>
                   nat (str_start_offset r) \<le> length code_r \<and>
                   drop (nat (offs ! str_index r)) blob = code_r @ 0 # rest_r))"
    if idx: "idx < length str_table" for idx
  proof -
    from o idx have nn: "0 \<le> offs ! idx"
      and eq: "offs ! idx = offs ! representative str_remapping idx +
                start_in_representative str_remapping idx"
      by blast+
    have rem: "offs ! idx = offs ! str_index r + str_start_offset r \<and>
               0 \<le> str_start_offset r \<and>
               (\<exists>code_r rest_r.
                   convert_string_bytes table (str_table ! str_index r) = Inr code_r \<and>
                   nat (str_start_offset r) \<le> length code_r \<and>
                   drop (nat (offs ! str_index r)) blob = code_r @ 0 # rest_r)"
      if r: "str_remapping ! idx = Some r" for r
    proof -
      have a: "offs ! idx = offs ! str_index r + str_start_offset r"
        using eq r by (simp add: representative_def start_in_representative_def)
      from s idx r have b: "str_index r < length str_table" "0 \<le> str_start_offset r"
        "nat (str_start_offset r) \<le> length (?enc (str_index r))"
        unfolding remap_sound_def by auto
      from o b(1) obtain rest_r where
        "drop (nat (offs ! str_index r)) blob = ?enc (str_index r) @ 0 # rest_r" by blast
      with e b a show ?thesis by blast
    qed
    from nn get_offset_ok [of idx offs] idx l
    have "get_offset offs (int idx) = Inr (offs ! idx)" by simp
    with nn held [OF idx] rem show ?thesis by blast
  qed
  with one t l show ?thesis by blast
qed

theorem absorption_one_level_witness:
  "suffix_merge ascii_table [str_ab, str_cdab, str_xyz] =
     Inr [Some \<lparr>str_index = 1, str_start_offset = 2\<rparr>, None, None] \<and>
   (\<exists>blob offs. translation_strings ascii_table [str_ab, str_cdab, str_xyz] = Inr (blob, offs) \<and>
      get_offset offs 0 = Inr (offs ! 0) \<and> offs ! 0 = offs ! 1 + 2 \<and>
      (\<exists>rest. drop (nat (offs ! 0)) blob = [97, 98] @ 0 # rest) \<and>
      (\<exists>rest. drop (nat (offs ! 1)) blob = [99, 100, 97, 98] @ 0 # rest))"
proof -
  have sm: "suffix_merge ascii_table [str_ab, str_cdab, str_xyz] =
     Inr [Some \<lparr>str_index = 1, str_start_offset = 2\<rparr>, None, None]"
    by code_simp
  have c0: "convert_string_bytes ascii_table str_ab = Inr [97, 98]"
    and c1: "convert_string_bytes ascii_table str_cdab = Inr [99, 100, 97, 98]"
    by code_simp+
  from absorption_one_level [OF sm] obtain blob offs where
    t: "translation_strings ascii_table [str_ab, str_cdab, str_xyz] = Inr (blob, offs)"
    and o: "\<forall>idx<length [str_ab, str_cdab, str_xyz].
               get_offset offs (int idx) = Inr (offs ! idx) \<and> 0 \<le> offs ! idx \<and>
               (\<exists>code rest. convert_string_bytes ascii_table ([str_ab, str_cdab, str_xyz] ! idx) =
                    Inr code \<and> drop (nat (offs ! idx)) blob = code @ 0 # rest) \<and>
               (\<forall>r. [Some \<lparr>str_index = 1, str_start_offset = 2\<rparr>, None, None] ! idx = Some r \<longrightarrow>
                    offs ! idx = offs ! str_index r + str_start_offset r \<and>
                    0 \<le> str_start_offset r \<and>
                    (\<exists>code_r rest_r.
                        convert_string_bytes ascii_table
                          ([str_ab, str_cdab, str_xyz] ! str_index r) = Inr code_r \<and>
                        nat (str_start_offset r) \<le> length code_r \<and>
                        drop (nat (offs ! str_index r)) blob = code_r @ 0 # rest_r))"
    by blast
  have h: "0 < length [str_ab, str_cdab, str_xyz]" by simp
  have r0: "[Some \<lparr>str_index = 1, str_start_offset = 2\<rparr>, None, None] ! 0 =
      Some \<lparr>str_index = 1, str_start_offset = 2\<rparr>" by simp
  note o0 = o [rule_format, OF h]
  from o0 have g: "get_offset offs 0 = Inr (offs ! 0)" by simp
  from o0 obtain code rest where
    "convert_string_bytes ascii_table ([str_ab, str_cdab, str_xyz] ! 0) = Inr code"
    "drop (nat (offs ! 0)) blob = code @ 0 # rest" by blast
  with c0 have d0: "\<exists>rest. drop (nat (offs ! 0)) blob = [97, 98] @ 0 # rest" by simp
  from o0 r0 have
    "offs ! 0 = offs ! str_index \<lparr>str_index = 1, str_start_offset = 2\<rparr> +
        str_start_offset \<lparr>str_index = 1, str_start_offset = 2\<rparr>"
    and "\<exists>code_r rest_r.
           convert_string_bytes ascii_table
             ([str_ab, str_cdab, str_xyz] ! str_index \<lparr>str_index = 1, str_start_offset = 2\<rparr>) =
               Inr code_r \<and>
           drop (nat (offs ! str_index \<lparr>str_index = 1, str_start_offset = 2\<rparr>)) blob =
             code_r @ 0 # rest_r"
    by blast+
  then have e0: "offs ! 0 = offs ! 1 + 2"
    and "\<exists>code_r rest_r. convert_string_bytes ascii_table str_cdab = Inr code_r \<and>
           drop (nat (offs ! 1)) blob = code_r @ 0 # rest_r"
    by simp_all
  with c1 have d1: "\<exists>rest. drop (nat (offs ! 1)) blob = [99, 100, 97, 98] @ 0 # rest" by simp
  from sm t g e0 d0 d1 show ?thesis by blast
qed


end
